theory Spec2Isabelle
  imports Complex_Main "HOL-Library.Log_Nat" "HOL-Library.Word" "HOL-Library.Signed_Division"
begin

section \<open>Double-precision arithmetic\<close>

text \<open>
  The synthesizer computes its phase, its pitch and its wavetable in C \<^verbatim>\<open>double\<close>.
  A double is modelled as the real number it denotes, and every arithmetic operation as the
  exact operation followed by rounding to the nearest number with a 53-bit significand, ties
  to even (the IEEE 754 default). The exponent range is not bounded here: no value of the
  oscillator comes near overflow, and sums and differences of doubles never underflow.
  The pitch calculator, whose power can overflow and underflow, is modelled a second time
  with the exponent range of the format.
\<close>

definition pow2 :: "int \<Rightarrow> real" where
  "pow2 e = (if 0 \<le> e then 2 ^ nat e else 1 / 2 ^ nat (- e))"

text \<open>The binary exponent of a positive real: \<open>pow2 (expo x) \<le> x < pow2 (expo x + 1)\<close>.\<close>

definition expo :: "real \<Rightarrow> int" where
  "expo x = (if 1 \<le> x then bitlen \<lfloor>x\<rfloor> - 1 else - bitlen (\<lceil>1 / x\<rceil> - 1))"

text \<open>Rounding a real to the nearest integer, ties to the even neighbour.\<close>

definition rne :: "real \<Rightarrow> int" where
  "rne y = (let f = \<lfloor>y\<rfloor>; r = y - of_int f in
     if r < 1 / 2 then f else if 1 / 2 < r then f + 1 else if even f then f else f + 1)"

text \<open>
  Rounding to 53 significant bits: \<open>rd_at e x\<close> rounds \<open>x\<close> of binary exponent \<open>e\<close> to
  the nearest multiple of \<open>pow2 (e - 52)\<close>.
\<close>

definition rd_at :: "int \<Rightarrow> real \<Rightarrow> real" where
  "rd_at e x = sgn x * (pow2 (e - 52) * of_int (rne (\<bar>x\<bar> / pow2 (e - 52))))"

definition rd :: "real \<Rightarrow> real" where
  "rd x = (if x = 0 then 0 else rd_at (expo \<bar>x\<bar>) x)"

text \<open>The numbers a double can hold: a significand below \<open>2^53\<close> times a power of two.\<close>

definition is_double :: "real \<Rightarrow> bool" where
  "is_double x = (\<exists>m e. \<bar>m\<bar> < 2 ^ 53 \<and> x = of_int m * pow2 e)"

definition dadd :: "real \<Rightarrow> real \<Rightarrow> real" where
  "dadd x y = rd (x + y)"

definition dsub :: "real \<Rightarrow> real \<Rightarrow> real" where
  "dsub x y = rd (x - y)"

definition dmul :: "real \<Rightarrow> real \<Rightarrow> real" where
  "dmul x y = rd (x * y)"

definition ddiv :: "real \<Rightarrow> real \<Rightarrow> real" where
  "ddiv x y = rd (x / y)"

text \<open>
  Conversion of a C \<^verbatim>\<open>int\<close> to double, and the cast \<^verbatim>\<open>(int)x\<close>, which truncates toward
  zero. The cast of a value beyond the range of \<^verbatim>\<open>int\<close> is undefined in C; the model gives
  the truncated value there too.
\<close>

definition double_of_int :: "int \<Rightarrow> real" where
  "double_of_int i = rd (of_int i)"

definition int_of_double :: "real \<Rightarrow> int" where
  "int_of_double x = (if 0 \<le> x then \<lfloor>x\<rfloor> else \<lceil>x\<rceil>)"

text \<open>
  \<^verbatim>\<open>sin\<close> and \<^verbatim>\<open>pow\<close> come from the C library; they are modelled as correctly rounded.
\<close>

definition c_sin :: "real \<Rightarrow> real" where
  "c_sin x = rd (sin x)"

definition c_pow :: "real \<Rightarrow> real \<Rightarrow> real" where
  "c_pow x y = rd (x powr y)"

section \<open>Program state\<close>

text \<open>
  The globals of \<^verbatim>\<open>synth_samples_sdl2_2.c\<close> that the synthesis core reads or writes.
  C \<^verbatim>\<open>int\<close> variables are integers (every value the program reaches is far inside the
  32-bit range); samples are 16-bit words.
\<close>

record synth =
  quit :: bool
  sample_rate :: int
  table_length :: int
  phase_double :: real
  phase_int :: int
  sine_wave_table :: "16 word list"
  "note" :: int
  octave :: int
  max_note :: int
  min_note :: int

definition pi_c :: real where
  "pi_c = rd (314159265358979323846 / 100000000000000000000)"

definition chromatic_ratio :: real where
  "chromatic_ratio = rd (1059463094359295264562 / 1000000000000000000000)"

subsection \<open>Wavetable builder\<close>

text \<open>
  \<^verbatim>\<open>build_sine_table\<close>: the loop writes \<^verbatim>\<open>data[0..wave_length-1]\<close>; the model returns
  the samples written, in order. \<open>sine_loop n inc ph\<close> is the loop with \<open>n\<close> iterations left.
\<close>

fun sine_loop :: "nat \<Rightarrow> real \<Rightarrow> real \<Rightarrow> 16 word list" where
  "sine_loop 0 inc current_phase = []"
| "sine_loop (Suc n) inc current_phase =
     word_of_int (int_of_double (dmul (c_sin current_phase) (double_of_int 32767)))
       # sine_loop n inc (dadd current_phase inc)"

definition build_sine_table :: "int \<Rightarrow> 16 word list" where
  "build_sine_table wave_length =
     sine_loop (nat wave_length) (ddiv (dmul 2 pi_c) (double_of_int wave_length)) 0"

subsection \<open>Pitch\<close>

text \<open>
  \<^verbatim>\<open>get_pitch\<close>: \<^verbatim>\<open>pow(chromatic_ratio, note - 57)\<close>, then \<^verbatim>\<open>p *= 440\<close>; here in the
  arithmetic without exponent bound that the oscillator uses.
\<close>

definition get_pitch :: "real \<Rightarrow> real" where
  "get_pitch d_note = dmul (c_pow chromatic_ratio (dsub d_note 57)) 440"

subsection \<open>Pitch in the double format with its exponent range\<close>

text \<open>
  \<^verbatim>\<open>get_pitch\<close> accepts every note, so its power can leave the range of the format. For
  this function the double is modelled with that range: a value is a finite real, an
  infinity or a NaN. Zero is the positive zero: the pitch computation multiplies and
  raises positive numbers only.
\<close>

datatype ieee = Fin real | PInf | MInf | NaN

text \<open>
  Rounding with gradual underflow: below \<open>2^-1022\<close> the spacing of the doubles stays
  \<open>2^-1074\<close>. A result that rounds to \<open>2^1024\<close> or beyond overflows to an infinity.
  \<open>max_double\<close> is the largest finite double.
\<close>

definition rd_sub :: "real \<Rightarrow> real" where
  "rd_sub x = (if x = 0 then 0 else rd_at (max (expo \<bar>x\<bar>) (- 1022)) x)"

definition round_ieee :: "real \<Rightarrow> ieee" where
  "round_ieee x =
     (if pow2 1024 \<le> rd_sub x then PInf
      else if rd_sub x \<le> - pow2 1024 then MInf
      else Fin (rd_sub x))"

definition max_double :: real where
  "max_double = of_int (2 ^ 53 - 1) * pow2 971"

text \<open>Subtraction, multiplication and division of IEEE 754, with their special cases.\<close>

fun ieee_sub :: "ieee \<Rightarrow> ieee \<Rightarrow> ieee" where
  "ieee_sub (Fin x) (Fin y) = round_ieee (x - y)"
| "ieee_sub NaN b = NaN"
| "ieee_sub a NaN = NaN"
| "ieee_sub PInf PInf = NaN"
| "ieee_sub MInf MInf = NaN"
| "ieee_sub PInf b = PInf"
| "ieee_sub MInf b = MInf"
| "ieee_sub (Fin x) PInf = MInf"
| "ieee_sub (Fin x) MInf = PInf"

fun ieee_mul :: "ieee \<Rightarrow> ieee \<Rightarrow> ieee" where
  "ieee_mul (Fin x) (Fin y) = round_ieee (x * y)"
| "ieee_mul NaN b = NaN"
| "ieee_mul a NaN = NaN"
| "ieee_mul PInf (Fin y) = (if y = 0 then NaN else if 0 < y then PInf else MInf)"
| "ieee_mul MInf (Fin y) = (if y = 0 then NaN else if 0 < y then MInf else PInf)"
| "ieee_mul (Fin x) PInf = (if x = 0 then NaN else if 0 < x then PInf else MInf)"
| "ieee_mul (Fin x) MInf = (if x = 0 then NaN else if 0 < x then MInf else PInf)"
| "ieee_mul PInf PInf = PInf"
| "ieee_mul PInf MInf = MInf"
| "ieee_mul MInf PInf = MInf"
| "ieee_mul MInf MInf = PInf"

fun ieee_div :: "ieee \<Rightarrow> ieee \<Rightarrow> ieee" where
  "ieee_div (Fin x) (Fin y) =
     (if y = 0 then (if x = 0 then NaN else if 0 < x then PInf else MInf)
      else round_ieee (x / y))"
| "ieee_div NaN b = NaN"
| "ieee_div a NaN = NaN"
| "ieee_div (Fin x) PInf = Fin 0"
| "ieee_div (Fin x) MInf = Fin 0"
| "ieee_div PInf (Fin y) = (if 0 \<le> y then PInf else MInf)"
| "ieee_div MInf (Fin y) = (if 0 \<le> y then MInf else PInf)"
| "ieee_div PInf b = NaN"
| "ieee_div MInf b = NaN"

text \<open>
  \<^verbatim>\<open>pow(x, y)\<close> for a positive finite base \<open>x\<close>, the only case in the program (the base is
  \<^verbatim>\<open>chromatic_ratio\<close>): correctly rounded for a finite exponent, with the limits of C99
  Annex F for an infinite one.
\<close>

fun c_pow_ieee :: "real \<Rightarrow> ieee \<Rightarrow> ieee" where
  "c_pow_ieee x (Fin y) = round_ieee (x powr y)"
| "c_pow_ieee x PInf = (if 1 < x then PInf else if x = 1 then Fin 1 else Fin 0)"
| "c_pow_ieee x MInf = (if 1 < x then Fin 0 else if x = 1 then Fin 1 else PInf)"
| "c_pow_ieee x NaN = (if x = 1 then Fin 1 else NaN)"

text \<open>The conversion of an \<^verbatim>\<open>int\<close> argument to the \<^verbatim>\<open>double\<close> parameter of \<^verbatim>\<open>get_pitch\<close>.\<close>

definition ieee_of_int :: "int \<Rightarrow> ieee" where
  "ieee_of_int i = round_ieee (of_int i)"

text \<open>
  \<^verbatim>\<open>get_pitch\<close> once more, statement by statement, in this arithmetic. Where nothing
  overflows or underflows it returns what \<open>get_pitch\<close> above returns (\<open>get_pitch_ieee_normal\<close>).
\<close>

definition get_pitch_ieee :: "ieee \<Rightarrow> ieee" where
  "get_pitch_ieee d_note =
     ieee_mul (c_pow_ieee chromatic_ratio (ieee_sub d_note (Fin 57))) (Fin 440)"

text \<open>The quotient \<^verbatim>\<open>pitch(n + 12) / pitch(n)\<close> of the specification, computed in doubles.\<close>

definition octave_quotient :: "int \<Rightarrow> ieee" where
  "octave_quotient n =
     ieee_div (get_pitch_ieee (ieee_of_int (n + 12))) (get_pitch_ieee (ieee_of_int n))"

text \<open>The globals as initialised, once \<^verbatim>\<open>init_data\<close> has built the table.\<close>

definition init_state :: synth where
  "init_state = \<lparr> quit = False, sample_rate = 44100, table_length = 1024,
     phase_double = 0, phase_int = 0, sine_wave_table = build_sine_table 1024,
     note = 30, octave = 2, max_note = 131, min_note = 12 \<rparr>"

section \<open>Keyboard handling\<close>

text \<open>The key codes \<^verbatim>\<open>handle_note_keys\<close> distinguishes; every other key is \<open>SDLK_other\<close>.\<close>

datatype keysym =
    SDLK_PLUS | SDLK_MINUS
  | SDLK_z | SDLK_s | SDLK_x | SDLK_d | SDLK_c | SDLK_v | SDLK_g | SDLK_b | SDLK_h
  | SDLK_n | SDLK_j | SDLK_m | SDLK_COMMA | SDLK_l | SDLK_PERIOD
  | SDLK_q | SDLK_2 | SDLK_w | SDLK_3 | SDLK_e | SDLK_r | SDLK_5 | SDLK_t | SDLK_6
  | SDLK_y | SDLK_7 | SDLK_u | SDLK_i | SDLK_9 | SDLK_o | SDLK_0 | SDLK_p
  | SDLK_other

text \<open>The note cases of the switch: the value assigned to \<^verbatim>\<open>new_note\<close>, if the key has a case.\<close>

fun key_note :: "keysym \<Rightarrow> int option" where
  "key_note SDLK_z = Some 12"
| "key_note SDLK_s = Some 13"
| "key_note SDLK_x = Some 14"
| "key_note SDLK_d = Some 15"
| "key_note SDLK_c = Some 16"
| "key_note SDLK_v = Some 17"
| "key_note SDLK_g = Some 18"
| "key_note SDLK_b = Some 19"
| "key_note SDLK_h = Some 20"
| "key_note SDLK_n = Some 21"
| "key_note SDLK_j = Some 22"
| "key_note SDLK_m = Some 23"
| "key_note SDLK_COMMA = Some 24"
| "key_note SDLK_l = Some 25"
| "key_note SDLK_PERIOD = Some 26"
| "key_note SDLK_q = Some 24"
| "key_note SDLK_2 = Some 25"
| "key_note SDLK_w = Some 26"
| "key_note SDLK_3 = Some 27"
| "key_note SDLK_e = Some 28"
| "key_note SDLK_r = Some 29"
| "key_note SDLK_5 = Some 30"
| "key_note SDLK_t = Some 31"
| "key_note SDLK_6 = Some 32"
| "key_note SDLK_y = Some 33"
| "key_note SDLK_7 = Some 34"
| "key_note SDLK_u = Some 35"
| "key_note SDLK_i = Some 36"
| "key_note SDLK_9 = Some 37"
| "key_note SDLK_o = Some 38"
| "key_note SDLK_0 = Some 39"
| "key_note SDLK_p = Some 40"
| "key_note k = None"

text \<open>
  \<^verbatim>\<open>handle_note_keys\<close>. The plus and minus cases return from inside the switch; a key
  without a case returns at \<^verbatim>\<open>default\<close>; a note key falls out of the switch to the
  assignment under \<^verbatim>\<open>if(new_note > -1)\<close>. The \<^verbatim>\<open>printf\<close> calls are not modelled.
\<close>

definition handle_note_keys :: "keysym \<Rightarrow> synth \<Rightarrow> synth" where
  "handle_note_keys k s =
     (if k = SDLK_PLUS then
        (let s1 = s\<lparr>octave := octave s + 1\<rparr> in
         if octave s1 > 6 then s1\<lparr>octave := 6\<rparr>
         else (let s2 = s1\<lparr>note := note s1 + 12\<rparr> in
               if note s2 > max_note s2 then s2\<lparr>note := max_note s2\<rparr> else s2))
      else if k = SDLK_MINUS then
        (let s1 = s\<lparr>octave := octave s - 1\<rparr> in
         if octave s1 < 0 then s1\<lparr>octave := 0\<rparr>
         else (let s2 = s1\<lparr>note := note s1 - 12\<rparr> in
               if note s2 < min_note s2 then s2\<lparr>note := min_note s2\<rparr> else s2))
      else (case key_note k of
              None \<Rightarrow> s
            | Some new_note \<Rightarrow>
                if new_note > - 1 then s\<lparr>note := new_note + octave s * 12\<rparr> else s))"

definition handle_key_down :: "keysym \<Rightarrow> synth \<Rightarrow> synth" where
  "handle_key_down k s = handle_note_keys k s"

text \<open>A run of the event loop over a sequence of key-down events, oldest first.\<close>

fun key_downs :: "keysym list \<Rightarrow> synth \<Rightarrow> synth" where
  "key_downs [] s = s"
| "key_downs (k # ks) s = key_downs ks (handle_key_down k s)"

section \<open>Audio callback\<close>

text \<open>
  A fault is what the C program would do outside its arrays: read the wavetable or write
  the output buffer at an index beyond its length.
\<close>

datatype fault = TableOutOfBounds | BufferOutOfBounds

text \<open>
  The output buffer is handled through the \<^verbatim>\<open>Sint16*\<close> view the callback takes of it: a
  list of 16-bit slots, two per stereo frame (left, right). \<open>None\<close> is the null pointer.
\<close>

type_synonym stream = "16 word list option"

text \<open>\<^verbatim>\<open>sample *= 0.3\<close> on an \<^verbatim>\<open>int16_t\<close>: multiply as doubles, convert back by truncation.\<close>

definition scale_volume :: "16 word \<Rightarrow> 16 word" where
  "scale_volume sample =
     word_of_int (int_of_double (dmul (double_of_int (sint sample)) (rd (3 / 10))))"

definition phase_increment :: "synth \<Rightarrow> real" where
  "phase_increment s =
     (let d_sample_rate = double_of_int (sample_rate s);
          d_table_length = double_of_int (table_length s);
          d_note = double_of_int (note s)
      in dmul (ddiv (get_pitch d_note) d_sample_rate) d_table_length)"

text \<open>The first half of the loop body of \<^verbatim>\<open>write_samples\<close>: advance the phase and wrap it.\<close>

definition advance_phase :: "real \<Rightarrow> synth \<Rightarrow> synth" where
  "advance_phase inc s =
     (let s1 = s\<lparr>phase_double := dadd (phase_double s) inc\<rparr>;
          s2 = s1\<lparr>phase_int := int_of_double (phase_double s1)\<rparr>
      in if phase_double s2 \<ge> double_of_int (table_length s2) then
           (let diff = dsub (phase_double s2) (double_of_int (table_length s2))
            in s2\<lparr>phase_double := diff, phase_int := int_of_double diff\<rparr>)
         else s2)"

text \<open>
  One iteration of the loop of \<^verbatim>\<open>write_samples\<close>, at loop index \<open>i\<close>: the phase step, the
  guard on \<^verbatim>\<open>phase_int\<close>, the null check, the table read and the two writes.
\<close>

definition write_frame :: "real \<Rightarrow> int \<Rightarrow> int \<Rightarrow> synth \<times> stream \<Rightarrow> fault + synth \<times> stream" where
  "write_frame inc begin i st =
     (let s = advance_phase inc (fst st); s_byteStream = snd st in
      if phase_int s < table_length s \<and> phase_int s > - 1 then
        (case s_byteStream of
           None \<Rightarrow> Inr (s, None)
         | Some buf \<Rightarrow>
             if \<not> nat (phase_int s) < length (sine_wave_table s) then Inl TableOutOfBounds
             else
               (let sample = scale_volume (sine_wave_table s ! nat (phase_int s)) in
                if i + begin < 0 \<or> \<not> nat (i + begin + 1) < length buf then Inl BufferOutOfBounds
                else Inr (s, Some (buf[nat (i + begin) := sample, nat (i + begin + 1) := sample]))))
      else Inr (s, s_byteStream))"

text \<open>\<^verbatim>\<open>for (int i = 0; i < length; i+=2)\<close>, entered at index \<open>i\<close> (\<open>length'\<close> is the
  parameter \<^verbatim>\<open>length\<close>).\<close>

function write_loop :: "real \<Rightarrow> int \<Rightarrow> int \<Rightarrow> int \<Rightarrow> synth \<times> stream \<Rightarrow> fault + synth \<times> stream" where
  "write_loop inc begin length' i st =
     (if i < length' then
        (case write_frame inc begin i st of
           Inl f \<Rightarrow> Inl f
         | Inr st' \<Rightarrow> write_loop inc begin length' (i + 2) st')
      else Inr st)"
  by pat_completeness auto
termination
  by (relation "measure (\<lambda>(inc, begin, length', i, st). nat (length' - i))") auto

definition write_samples :: "stream \<Rightarrow> int \<Rightarrow> int \<Rightarrow> int \<Rightarrow> synth \<Rightarrow> fault + synth \<times> stream" where
  "write_samples s_byteStream begin end length' s =
     (if note s > 0 then write_loop (phase_increment s) begin length' 0 (s, s_byteStream)
      else Inr (s, s_byteStream))"

text \<open>\<^verbatim>\<open>for(long i = 0; i < iterations; i++)\<close> of \<^verbatim>\<open>audio_callback\<close>, entered at index \<open>i\<close>.\<close>

function chunk_loop :: "int \<Rightarrow> int \<Rightarrow> int \<Rightarrow> synth \<times> stream \<Rightarrow> fault + synth \<times> stream" where
  "chunk_loop chunk_size iterations i st =
     (if i < iterations then
        (let begin = i * chunk_size; end = i * chunk_size + chunk_size in
         case write_samples (snd st) begin end chunk_size (fst st) of
           Inl f \<Rightarrow> Inl f
         | Inr st' \<Rightarrow> chunk_loop chunk_size iterations (i + 1) st')
      else Inr st)"
  by pat_completeness auto
termination
  by (relation "measure (\<lambda>(chunk_size, iterations, i, st). nat (iterations - i))") auto

text \<open>
  \<^verbatim>\<open>audio_callback\<close>. \<open>byte_stream\<close> is the buffer of \<open>byte_stream_length\<close> bytes in its
  16-bit view, so it has \<open>byte_stream_length div 2\<close> slots; \<^verbatim>\<open>memset\<close> zeroes every
  byte of it. C's \<^verbatim>\<open>/\<close> truncates toward zero (\<open>sdiv\<close>).
\<close>

definition audio_callback :: "16 word list \<Rightarrow> int \<Rightarrow> synth \<Rightarrow> fault + synth \<times> stream" where
  "audio_callback byte_stream byte_stream_length s =
     (let zeroed = replicate (length byte_stream) 0 in
      if quit s then Inr (s, Some zeroed)
      else
        (let s_byte_stream = Some zeroed;
             remain = byte_stream_length sdiv 2;
             chunk_size = 64;
             iterations = remain sdiv chunk_size
         in chunk_loop chunk_size iterations 0 (s, s_byte_stream)))"

section \<open>The phase sequence and the reference index of the specification\<close>

text \<open>
  The value \<^verbatim>\<open>advance_phase\<close> leaves in \<open>phase_double\<close>, as a function of the phase before:
  \<open>wrap_step inc n ph\<close>, for table length \<open>n\<close>. \<open>phase_run k inc n ph\<close> lists \<open>k\<close>
  successive phases starting with \<open>ph\<close>.
\<close>

definition wrap :: "int \<Rightarrow> real \<Rightarrow> real" where
  "wrap n p = (if p \<ge> double_of_int n then dsub p (double_of_int n) else p)"

definition wrap_step :: "real \<Rightarrow> int \<Rightarrow> real \<Rightarrow> real" where
  "wrap_step inc n ph = wrap n (dadd ph inc)"

fun phase_run :: "nat \<Rightarrow> real \<Rightarrow> int \<Rightarrow> real \<Rightarrow> real list" where
  "phase_run 0 inc n ph = []"
| "phase_run (Suc k) inc n ph = ph # phase_run k inc n (wrap_step inc n ph)"

text \<open>The wavetable index read at frame \<open>k\<close> (counted from 1) of a run that starts in state \<open>s\<close>.\<close>

definition frame_index :: "real \<Rightarrow> synth \<Rightarrow> nat \<Rightarrow> int" where
  "frame_index inc s k = phase_int ((advance_phase inc ^^ k) s)"

text \<open>
  The reference of the specification, \<^verbatim>\<open>floor(fmod(k * d, n))\<close>: once with the product
  computed in double arithmetic, as the C expression would, once in exact arithmetic.
  \<^verbatim>\<open>fmod\<close> is exact: \<open>x - y * trunc (x / y)\<close>.
\<close>

definition c_fmod :: "real \<Rightarrow> real \<Rightarrow> real" where
  "c_fmod x y = x - y * of_int (int_of_double (x / y))"

definition spec_index :: "real \<Rightarrow> int \<Rightarrow> nat \<Rightarrow> int" where
  "spec_index d n k = \<lfloor>c_fmod (dmul (of_nat k) d) (of_int n)\<rfloor>"

definition spec_index_exact :: "real \<Rightarrow> int \<Rightarrow> nat \<Rightarrow> int" where
  "spec_index_exact d n k = \<lfloor>c_fmod (of_nat k * d) (of_int n)\<rfloor>"

text \<open>
  The wavetable entry of the specification: \<open>round (sin (2 pi i / n) * MAX_AMPLITUDE)\<close>, in
  exact arithmetic, with \<open>MAX_AMPLITUDE = 32767\<close>.
\<close>

definition spec_sample :: "int \<Rightarrow> nat \<Rightarrow> int" where
  "spec_sample n i = round (sin (2 * pi * of_nat i / of_int n) * 32767)"

text \<open>
  The same entry with the conversion the code uses, the truncation toward zero of the cast
  \<^verbatim>\<open>(int)\<close>, in exact arithmetic.
\<close>

definition trunc_sample :: "int \<Rightarrow> nat \<Rightarrow> int" where
  "trunc_sample n i = int_of_double (sin (2 * pi * of_nat i / of_int n) * 32767)"

text \<open>
  What frame \<open>k\<close> (counted from 1) of a run from state \<open>s\<close> writes to both of its slots: the
  scaled table entry at the index of that frame, or nothing when the index fails the
  guard. \<open>written w old\<close> is the content of a slot after such a frame.
\<close>

definition frame_sample :: "real \<Rightarrow> synth \<Rightarrow> nat \<Rightarrow> 16 word option" where
  "frame_sample inc s k =
     (let s' = (advance_phase inc ^^ k) s in
      if phase_int s' < table_length s' \<and> phase_int s' > - 1
      then Some (scale_volume (sine_wave_table s' ! nat (phase_int s')))
      else None)"

definition written :: "16 word option \<Rightarrow> 16 word \<Rightarrow> 16 word" where
  "written w old = (case w of Some v \<Rightarrow> v | None \<Rightarrow> old)"

text \<open>Both channels of every frame of a buffer hold the same sample.\<close>

definition pairs :: "16 word list \<Rightarrow> bool" where
  "pairs buf = (\<forall>f \<in> {0..<length buf div 2}. buf ! (2 * f) = buf ! (2 * f + 1))"

section \<open>Note and octave state\<close>

definition voice_inv :: "synth \<Rightarrow> bool" where
  "voice_inv s = (0 \<le> octave s \<and> octave s \<le> 6 \<and> min_note s \<le> note s \<and> note s \<le> max_note s
     \<and> min_note s = 12 \<and> max_note s = 131)"

section \<open>Enclosure of the sine in integer arithmetic\<close>

text \<open>
  To compare the table of 1024 entries with the exact sine, \<open>sin (j pi / 512)\<close> and
  \<open>cos (j pi / 512)\<close> are enclosed between integers scaled by \<open>2^48\<close>, one step of
  \<open>pi / 512\<close> at a time, by the addition theorems. A state holds a lower and an upper
  bound of the sine, then of the cosine; the constants of \<open>encl_step\<close> enclose
  \<open>2^48 sin (pi / 512)\<close> and \<open>2^48 cos (pi / 512)\<close>, and \<open>drop_bit 48\<close> divides by \<open>2^48\<close>,
  rounding down.
\<close>

definition encl_step :: "int \<times> int \<times> int \<times> int \<Rightarrow> int \<times> int \<times> int \<times> int" where
  "encl_step st = (case st of (sl, sh, cl, ch) \<Rightarrow>
     (drop_bit 48 (sl * 281469678023764 + cl * 1727097988679),
      drop_bit 48 (sh * 281469678023765 + ch * 1727097988721) + 1,
      max 0 (drop_bit 48 (cl * 281469678023764 - sh * 1727097988721)),
      drop_bit 48 (ch * 281469678023765 - sl * 1727097988679) + 1))"

text \<open>
  A state is good when the sample it encloses, \<open>32767\<close> times the sine, stays between two
  consecutive integers even when widened by \<open>2^-24\<close> on both sides. \<open>encl_all k st\<close>
  checks \<open>k\<close> successive states from \<open>st\<close> on.
\<close>

definition encl_ok :: "int \<times> int \<times> int \<times> int \<Rightarrow> bool" where
  "encl_ok st = (case st of (sl, sh, cl, ch) \<Rightarrow>
     16777216 \<le> 32767 * sl
     \<and> drop_bit 48 (32767 * sl - 16777216) = drop_bit 48 (32767 * sh + 16777216))"

fun encl_all :: "nat \<Rightarrow> int \<times> int \<times> int \<times> int \<Rightarrow> bool" where
  "encl_all 0 st = True"
| "encl_all (Suc k) st = (encl_ok st \<and> encl_all k (encl_step st))"

text \<open>What a state claims of the angle \<open>x\<close>.\<close>

definition encloses :: "int \<times> int \<times> int \<times> int \<Rightarrow> real \<Rightarrow> bool" where
  "encloses st x = (case st of (sl, sh, cl, ch) \<Rightarrow>
     0 \<le> sl \<and> 0 \<le> cl
     \<and> of_int sl \<le> 2 ^ 48 * sin x \<and> 2 ^ 48 * sin x \<le> of_int sh
     \<and> of_int cl \<le> 2 ^ 48 * cos x \<and> 2 ^ 48 * cos x \<le> of_int ch)"

section \<open>Properties of rounding\<close>

lemma pow2_powr: "pow2 e = 2 powr (of_int e)"
proof (cases "0 \<le> e")
  case True
  then have "real_of_int e = real (nat e)" by simp
  then have "2 powr (of_int e) = (2::real) ^ nat e"
    by (simp only: powr_realpow [of 2 "nat e"])
  then show ?thesis using True by (simp add: pow2_def)
next
  case False
  then have "real_of_int e = - real (nat (- e))" by simp
  then have "2 powr (of_int e) = 1 / (2::real) ^ nat (- e)"
    by (simp only: powr_minus_divide powr_realpow [of 2 "nat (- e)"])
  then show ?thesis using False by (simp add: pow2_def)
qed

lemma pow2_pos [simp]: "0 < pow2 e"
  by (simp add: pow2_powr)

lemma pow2_add: "pow2 (a + b) = pow2 a * pow2 b"
  by (simp add: pow2_powr powr_add)

lemma pow2_diff: "pow2 (a - b) = pow2 a / pow2 b"
  by (simp add: pow2_powr powr_diff)

lemma pow2_le_iff [simp]: "pow2 a \<le> pow2 b \<longleftrightarrow> a \<le> b"
  by (simp add: pow2_powr)

lemma pow2_less_iff [simp]: "pow2 a < pow2 b \<longleftrightarrow> a < b"
  by (simp add: pow2_powr)

lemma pow2_nat: "pow2 (int n) = 2 ^ n"
  by (simp add: pow2_def)

lemma pow2_0 [simp]: "pow2 0 = 1"
  by (simp add: pow2_def)

lemma pow2_succ: "pow2 (e + 1) = 2 * pow2 e"
  by (simp add: pow2_powr powr_add)

lemma expo_bounds:
  assumes "0 < x"
  shows "pow2 (expo x) \<le> x" and "x < pow2 (expo x + 1)"
proof -
  have "pow2 (expo x) \<le> x \<and> x < pow2 (expo x + 1)"
  proof (cases "1 \<le> x")
    case True
    let ?n = "\<lfloor>x\<rfloor>"
    have n: "0 < ?n" using True by linarith
    have e: "expo x = bitlen ?n - 1" using True by (simp add: expo_def)
    have k: "0 \<le> bitlen ?n - 1" using n bitlen_eq_zero_iff [of ?n] bitlen_nonneg [of ?n] by linarith
    from bitlen_bounds [OF n]
    have lo: "2 ^ nat (bitlen ?n - 1) \<le> ?n" and hi: "?n < 2 ^ nat (bitlen ?n)" by simp_all
    have "pow2 (expo x) = of_int (2 ^ nat (bitlen ?n - 1))" using k e by (simp add: pow2_def)
    also have "\<dots> \<le> of_int ?n" using lo by (simp only: of_int_le_iff)
    also have "\<dots> \<le> x" by simp
    finally have 1: "pow2 (expo x) \<le> x" .
    have "?n + 1 \<le> 2 ^ nat (bitlen ?n)" using hi by simp
    then have "real_of_int (?n + 1) \<le> of_int (2 ^ nat (bitlen ?n))" by (simp only: of_int_le_iff)
    moreover have "x < real_of_int (?n + 1)" by linarith
    moreover have "pow2 (expo x + 1) = of_int (2 ^ nat (bitlen ?n))"
      using k e by (simp add: pow2_def)
    ultimately have 2: "x < pow2 (expo x + 1)" by linarith
    from 1 2 show ?thesis ..
  next
    case False
    let ?r = "1 / x"
    let ?m = "\<lceil>?r\<rceil> - 1"
    have r: "1 < ?r" using assms False by simp
    have m: "0 < ?m" using r by linarith
    have mr: "of_int ?m < ?r" "?r \<le> of_int ?m + 1" by linarith+
    have e: "expo x = - bitlen ?m" using False by (simp add: expo_def)
    have k: "0 < bitlen ?m" using m bitlen_eq_zero_iff [of ?m] bitlen_nonneg [of ?m] by linarith
    from bitlen_bounds [OF m]
    have lo: "2 ^ nat (bitlen ?m - 1) \<le> ?m" and hi: "?m < 2 ^ nat (bitlen ?m)" by simp_all
    have "?m + 1 \<le> 2 ^ nat (bitlen ?m)" using hi by simp
    then have "real_of_int (?m + 1) \<le> of_int (2 ^ nat (bitlen ?m))" by (simp only: of_int_le_iff)
    moreover have "real_of_int (2 ^ nat (bitlen ?m)) = 2 ^ nat (bitlen ?m)" by simp
    moreover have "real_of_int (?m + 1) = of_int ?m + 1" by simp
    ultimately have "?r \<le> 2 ^ nat (bitlen ?m)" using mr(2) by linarith
    then have "1 / 2 ^ nat (bitlen ?m) \<le> x"
      using assms by (simp add: field_simps)
    moreover have "pow2 (expo x) = 1 / 2 ^ nat (bitlen ?m)"
      using k e by (simp add: pow2_def)
    ultimately have 1: "pow2 (expo x) \<le> x" by simp
    have "real_of_int (2 ^ nat (bitlen ?m - 1)) \<le> of_int ?m" using lo by (simp only: of_int_le_iff)
    moreover have "real_of_int (2 ^ nat (bitlen ?m - 1)) = 2 ^ nat (bitlen ?m - 1)" by simp
    ultimately have "2 ^ nat (bitlen ?m - 1) < ?r" using mr(1) by linarith
    then have "x < 1 / 2 ^ nat (bitlen ?m - 1)"
      using assms by (simp add: field_simps)
    moreover have "pow2 (expo x + 1) = 1 / 2 ^ nat (bitlen ?m - 1)"
    proof -
      have "pow2 (expo x + 1) = pow2 (- (bitlen ?m - 1))" using e by simp
      also have "\<dots> = 1 / 2 ^ nat (bitlen ?m - 1)" using k by (simp add: pow2_def)
      finally show ?thesis .
    qed
    ultimately have 2: "x < pow2 (expo x + 1)" by simp
    from 1 2 show ?thesis ..
  qed
  then show "pow2 (expo x) \<le> x" and "x < pow2 (expo x + 1)" by simp_all
qed

lemma expo_unique:
  assumes "pow2 e \<le> x" "x < pow2 (e + 1)"
  shows "expo x = e"
proof -
  have x: "0 < x" using assms(1) pow2_pos [of e] by linarith
  note b = expo_bounds [OF x]
  have "pow2 e < pow2 (expo x + 1)" using assms(1) b(2) by linarith
  then have 1: "e \<le> expo x" by simp
  have "pow2 (expo x) < pow2 (e + 1)" using assms(2) b(1) by linarith
  then have 2: "expo x \<le> e" by simp
  from 1 2 show ?thesis by simp
qed


lemma expo_mono:
  assumes "0 < x" "x \<le> y"
  shows "expo x \<le> expo y"
proof -
  have y: "0 < y" using assms by linarith
  have "pow2 (expo x) < pow2 (expo y + 1)"
    using expo_bounds(1) [OF assms(1)] expo_bounds(2) [OF y] assms(2) by linarith
  then show ?thesis by simp
qed

lemma rne_of_int [simp]: "rne (of_int k) = k"
  by (simp add: rne_def)

lemma rne_mono:
  assumes "x \<le> y"
  shows "rne x \<le> rne y"
proof -
  have fx: "\<lfloor>x\<rfloor> \<le> rne x" "rne x \<le> \<lfloor>x\<rfloor> + 1"
    by (simp_all add: rne_def Let_def)
  have fy: "\<lfloor>y\<rfloor> \<le> rne y" "rne y \<le> \<lfloor>y\<rfloor> + 1"
    by (simp_all add: rne_def Let_def)
  have le: "\<lfloor>x\<rfloor> \<le> \<lfloor>y\<rfloor>" using assms by (rule floor_mono)
  show ?thesis
  proof (cases "\<lfloor>x\<rfloor> = \<lfloor>y\<rfloor>")
    case False
    then show ?thesis using le fx fy by linarith
  next
    case True
    then have "x - of_int \<lfloor>x\<rfloor> \<le> y - of_int \<lfloor>y\<rfloor>" using assms by simp
    then show ?thesis using True
      by (auto simp: rne_def Let_def)
  qed
qed

lemma rne_ge: "of_int k \<le> y \<Longrightarrow> k \<le> rne y"
  using rne_mono [of "of_int k" y] by simp

lemma rne_le: "y \<le> of_int k \<Longrightarrow> rne y \<le> k"
  using rne_mono [of y "of_int k"] by simp

lemma rd_0 [simp]: "rd 0 = 0"
  by (simp add: rd_def)

lemma rd_neg: "rd (- x) = - rd x"
  by (simp add: rd_def rd_at_def)

lemma rd_pos_eq:
  "0 < x \<Longrightarrow> rd x = pow2 (expo x - 52) * of_int (rne (x / pow2 (expo x - 52)))"
  by (simp add: rd_def rd_at_def)

lemma pow2_52: "pow2 52 = 2 ^ 52" and pow2_53: "pow2 53 = 2 ^ 53"
  by (simp_all add: pow2_def)

lemma pow2_nonneg [simp]: "0 \<le> pow2 e"
  using pow2_pos [of e] by linarith

lemma scaled_bounds:
  assumes "0 < x"
  shows "2 ^ 52 \<le> x / pow2 (expo x - 52)" and "x / pow2 (expo x - 52) < 2 ^ 53"
proof -
  let ?e = "expo x"
  have v: "pow2 (?e + 1) / pow2 (?e - 52) = 2 ^ 53"
    by (simp add: pow2_diff [symmetric] pow2_53)
  have w: "pow2 ?e / pow2 (?e - 52) = 2 ^ 52"
    by (simp add: pow2_diff [symmetric] pow2_52)
  have "pow2 ?e / pow2 (?e - 52) \<le> x / pow2 (?e - 52)"
    using expo_bounds(1) [OF assms] by (intro divide_right_mono) simp_all
  then show "2 ^ 52 \<le> x / pow2 (?e - 52)" using w by simp
  have "x / pow2 (?e - 52) < pow2 (?e + 1) / pow2 (?e - 52)"
    using expo_bounds(2) [OF assms] by (intro divide_strict_right_mono) simp_all
  then show "x / pow2 (?e - 52) < 2 ^ 53" using v by simp
qed

lemma rne_scaled_bounds:
  assumes "0 < x"
  shows "2 ^ 52 \<le> rne (x / pow2 (expo x - 52))" and "rne (x / pow2 (expo x - 52)) \<le> 2 ^ 53"
proof -
  have "real_of_int (2 ^ 52) \<le> x / pow2 (expo x - 52)"
    using scaled_bounds(1) [OF assms] by simp
  then show "2 ^ 52 \<le> rne (x / pow2 (expo x - 52))" by (rule rne_ge)
  have "x / pow2 (expo x - 52) \<le> real_of_int (2 ^ 53)"
    using scaled_bounds(2) [OF assms] by simp
  then show "rne (x / pow2 (expo x - 52)) \<le> 2 ^ 53" by (rule rne_le)
qed

lemma rd_pos_lower:
  assumes "0 < x"
  shows "pow2 (expo x) \<le> rd x"
proof -
  have "real_of_int (2 ^ 52) \<le> of_int (rne (x / pow2 (expo x - 52)))"
    using rne_scaled_bounds(1) [OF assms] by (simp only: of_int_le_iff)
  then have "pow2 (expo x - 52) * 2 ^ 52 \<le> rd x"
    unfolding rd_pos_eq [OF assms] by simp
  moreover have "pow2 (expo x - 52) * 2 ^ 52 = pow2 (expo x)"
    by (simp add: pow2_diff pow2_52)
  ultimately show ?thesis by simp
qed

lemma rd_pos_upper:
  assumes "0 < x"
  shows "rd x \<le> pow2 (expo x + 1)"
proof -
  have "real_of_int (rne (x / pow2 (expo x - 52))) \<le> of_int (2 ^ 53)"
    using rne_scaled_bounds(2) [OF assms] by (simp only: of_int_le_iff)
  then have "rd x \<le> pow2 (expo x - 52) * 2 ^ 53"
    unfolding rd_pos_eq [OF assms] by simp
  moreover have "pow2 (expo x - 52) * 2 ^ 53 = pow2 (expo x + 1)"
    by (simp add: pow2_diff pow2_52 pow2_succ)
  ultimately show ?thesis by simp
qed

lemma rd_pos: "0 < x \<Longrightarrow> 0 < rd x"
  using rd_pos_lower [of x] pow2_pos [of "expo x"] by linarith

lemma rd_mono_pos:
  assumes "0 < x" "x \<le> y"
  shows "rd x \<le> rd y"
proof -
  have y: "0 < y" using assms by linarith
  show ?thesis
  proof (cases "expo x = expo y")
    case True
    let ?u = "pow2 (expo y - 52)"
    have "x / ?u \<le> y / ?u" using assms(2) by (intro divide_right_mono) simp_all
    then have "rne (x / ?u) \<le> rne (y / ?u)" by (rule rne_mono)
    then have "real_of_int (rne (x / ?u)) \<le> of_int (rne (y / ?u))" by (simp only: of_int_le_iff)
    then show ?thesis
      unfolding rd_pos_eq [OF assms(1)] rd_pos_eq [OF y] True by simp
  next
    case False
    then have "expo x + 1 \<le> expo y" using expo_mono [OF assms] by linarith
    then have "pow2 (expo x + 1) \<le> pow2 (expo y)" by simp
    then show ?thesis using rd_pos_upper [OF assms(1)] rd_pos_lower [OF y] by linarith
  qed
qed

lemma rd_mono:
  assumes "x \<le> y"
  shows "rd x \<le> rd y"
proof -
  consider "0 < x" | "x = 0" | "x < 0" "y < 0" | "x < 0" "0 \<le> y" by linarith
  then show ?thesis
  proof cases
    case 1
    then show ?thesis using assms by (rule rd_mono_pos)
  next
    case 2
    then show ?thesis using assms rd_pos [of y] by (cases "y = 0") auto
  next
    case 3
    then have "rd (- y) \<le> rd (- x)" using assms by (intro rd_mono_pos) simp_all
    then show ?thesis by (simp add: rd_neg)
  next
    case 4
    have "rd x < 0" using rd_pos [of "- x"] 4(1) by (simp add: rd_neg)
    moreover have "0 \<le> rd y" using rd_pos [of y] 4(2) by (cases "y = 0") auto
    ultimately show ?thesis by linarith
  qed
qed

lemma rd_nonneg: "0 \<le> x \<Longrightarrow> 0 \<le> rd x"
  using rd_mono [of 0 x] by simp


lemma pow2_neq0 [simp]: "pow2 e \<noteq> 0"
  using pow2_pos [of e] by linarith

lemma rd_repr_pos:
  assumes m: "0 < m" "m < 2 ^ 53"
  shows "rd (of_int m * pow2 e) = of_int m * pow2 e"
proof -
  let ?x = "real_of_int m * pow2 e"
  let ?ex = "expo ?x"
  have x: "0 < ?x" using m(1) by simp
  have "real_of_int m < of_int (2 ^ 53)" using m(2) by (simp only: of_int_less_iff)
  then have "?x < 2 ^ 53 * pow2 e" by simp
  also have "\<dots> = pow2 (e + 53)" by (simp add: pow2_add pow2_53)
  finally have "pow2 ?ex < pow2 (e + 53)" using expo_bounds(1) [OF x] by linarith
  then have k: "0 \<le> e - ?ex + 52" by simp
  have "?x / pow2 (?ex - 52) = of_int m * (pow2 e / pow2 (?ex - 52))" by simp
  also have "pow2 e / pow2 (?ex - 52) = pow2 (e - ?ex + 52)"
    by (simp add: pow2_diff [symmetric] algebra_simps)
  also have "pow2 (e - ?ex + 52) = of_int (2 ^ nat (e - ?ex + 52))"
    using k by (simp add: pow2_def)
  finally have q: "?x / pow2 (?ex - 52) = of_int (m * 2 ^ nat (e - ?ex + 52))" by simp
  have "rd ?x = pow2 (?ex - 52) * of_int (rne (?x / pow2 (?ex - 52)))"
    by (rule rd_pos_eq [OF x])
  also have "\<dots> = pow2 (?ex - 52) * (?x / pow2 (?ex - 52))"
    unfolding q rne_of_int by (simp only: q [symmetric])
  also have "\<dots> = ?x" by simp
  finally show ?thesis .
qed

lemma rd_repr:
  assumes "\<bar>m\<bar> < 2 ^ 53"
  shows "rd (of_int m * pow2 e) = of_int m * pow2 e"
proof -
  consider "0 < m" | "m = 0" | "m < 0" by linarith
  then show ?thesis
  proof cases
    case 1
    then show ?thesis using assms by (intro rd_repr_pos) simp_all
  next
    case 2
    then show ?thesis by simp
  next
    case 3
    then have "rd (of_int (- m) * pow2 e) = of_int (- m) * pow2 e"
      using assms by (intro rd_repr_pos) simp_all
    then have "rd (- (of_int m * pow2 e)) = - (of_int m * pow2 e)" by simp
    then show ?thesis by (simp add: rd_neg)
  qed
qed

lemma is_double_rd: "is_double x \<Longrightarrow> rd x = x"
  by (auto simp: is_double_def rd_repr)

lemma is_double_0 [simp]: "is_double 0"
  unfolding is_double_def by (intro exI [of _ 0]) simp

lemma is_double_neg: "is_double x \<Longrightarrow> is_double (- x)"
proof -
  assume "is_double x"
  then obtain m e where "\<bar>m\<bar> < 2 ^ 53" "x = of_int m * pow2 e"
    by (auto simp: is_double_def)
  then have "\<bar>- m\<bar> < 2 ^ 53 \<and> - x = of_int (- m) * pow2 e" by simp
  then show ?thesis unfolding is_double_def by blast
qed

lemma is_double_twice: "is_double x \<Longrightarrow> is_double (2 * x)"
proof -
  assume "is_double x"
  then obtain m e where "\<bar>m\<bar> < 2 ^ 53" "x = of_int m * pow2 e"
    by (auto simp: is_double_def)
  then have "\<bar>m\<bar> < 2 ^ 53 \<and> 2 * x = of_int m * pow2 (e + 1)" by (simp add: pow2_succ)
  then show ?thesis unfolding is_double_def by blast
qed

lemma is_double_of_int: "\<bar>i\<bar> < 2 ^ 53 \<Longrightarrow> is_double (of_int i)"
  unfolding is_double_def by (intro exI [of _ i] exI [of _ 0]) simp

lemma double_of_int_eq: "\<bar>i\<bar> < 2 ^ 53 \<Longrightarrow> double_of_int i = of_int i"
  by (simp add: double_of_int_def is_double_rd is_double_of_int)

lemma rd_is_double_pos:
  assumes "0 < x"
  shows "is_double (rd x)"
proof -
  let ?k = "rne (x / pow2 (expo x - 52))"
  have r: "rd x = pow2 (expo x - 52) * of_int ?k" by (rule rd_pos_eq [OF assms])
  note b = rne_scaled_bounds [OF assms]
  show ?thesis
  proof (cases "?k = 2 ^ 53")
    case True
    then have "rd x = pow2 (expo x - 52) * of_int (2 ^ 53)" using r by simp
    also have "\<dots> = of_int 1 * pow2 (expo x + 1)"
      by (simp add: pow2_diff pow2_52 pow2_succ)
    finally have "\<bar>1::int\<bar> < 2 ^ 53 \<and> rd x = of_int 1 * pow2 (expo x + 1)" by simp
    then show ?thesis unfolding is_double_def by blast
  next
    case False
    then have "\<bar>?k\<bar> < 2 ^ 53" using b by simp
    then have "\<bar>?k\<bar> < 2 ^ 53 \<and> rd x = of_int ?k * pow2 (expo x - 52)" using r by simp
    then show ?thesis unfolding is_double_def by blast
  qed
qed

lemma rd_is_double [simp]: "is_double (rd x)"
proof -
  consider "0 < x" | "x = 0" | "x < 0" by linarith
  then show ?thesis
  proof cases
    case 1
    then show ?thesis by (rule rd_is_double_pos)
  next
    case 2
    then show ?thesis by simp
  next
    case 3
    then have "is_double (rd (- x))" by (intro rd_is_double_pos) simp
    then have "is_double (- rd (- x))" by (rule is_double_neg)
    then show ?thesis by (simp add: rd_neg)
  qed
qed

lemma rd_idem [simp]: "rd (rd x) = rd x"
  by (simp add: is_double_rd)

text \<open>The doubles are exactly the numbers that rounding leaves alone.\<close>

lemma is_double_iff: "is_double x \<longleftrightarrow> rd x = x"
proof
  assume "is_double x"
  then show "rd x = x" by (rule is_double_rd)
next
  assume "rd x = x"
  then show "is_double x" using rd_is_double [of x] by simp
qed


lemma rne_error: "\<bar>of_int (rne y) - y\<bar> \<le> 1 / 2"
  by (simp add: rne_def Let_def; linarith?)

lemma rd_rel_error:
  assumes "0 < x"
  shows "\<bar>rd x - x\<bar> \<le> x / 2 ^ 53"
proof -
  let ?u = "pow2 (expo x - 52)"
  let ?k = "rne (x / ?u)"
  have u: "0 < ?u" by simp
  have "rd x - x = ?u * (of_int ?k - x / ?u)"
    unfolding rd_pos_eq [OF assms] by (simp add: algebra_simps)
  then have "\<bar>rd x - x\<bar> = ?u * \<bar>of_int ?k - x / ?u\<bar>"
    using u by (simp add: abs_mult)
  also have "\<dots> \<le> ?u * (1 / 2)"
    using rne_error [of "x / ?u"] u by (intro mult_left_mono) simp_all
  also have "?u * (1 / 2) \<le> x / 2 ^ 53"
  proof -
    have "?u * 2 ^ 52 = pow2 (expo x)" by (simp add: pow2_diff pow2_52)
    then have "?u * 2 ^ 52 \<le> x" using expo_bounds(1) [OF assms] by simp
    then show ?thesis by (simp add: field_simps)
  qed
  finally show ?thesis .
qed

lemma rd_rel_bounds:
  assumes "0 < x"
  shows "(1 - 1 / 2 ^ 53) * x \<le> rd x" and "rd x \<le> (1 + 1 / 2 ^ 53) * x"
proof -
  have "\<bar>rd x - x\<bar> \<le> x / 2 ^ 53" by (rule rd_rel_error [OF assms])
  then have "- (x / 2 ^ 53) \<le> rd x - x" "rd x - x \<le> x / 2 ^ 53" by linarith+
  then show "(1 - 1 / 2 ^ 53) * x \<le> rd x" and "rd x \<le> (1 + 1 / 2 ^ 53) * x"
    by (simp_all add: algebra_simps)
qed

section \<open>Properties of the note and octave state\<close>

lemma key_note_range: "key_note k = Some n \<Longrightarrow> 12 \<le> n \<and> n \<le> 40"
  by (cases k) simp_all

lemma handle_note_keys_inv: "voice_inv s \<Longrightarrow> voice_inv (handle_note_keys k s)"
proof -
  assume inv: "voice_inv s"
  show ?thesis
  proof (cases "key_note k")
    case None
    with inv show ?thesis
      by (auto simp: handle_note_keys_def voice_inv_def Let_def)
  next
    case (Some n)
    then have "12 \<le> n" "n \<le> 40" using key_note_range by blast+
    moreover have "k \<noteq> SDLK_PLUS" "k \<noteq> SDLK_MINUS" using Some by auto
    ultimately show ?thesis using inv Some
      by (auto simp: handle_note_keys_def voice_inv_def)
  qed
qed

lemma key_downs_inv: "voice_inv s \<Longrightarrow> voice_inv (key_downs ks s)"
  by (induction ks arbitrary: s) (simp_all add: handle_key_down_def handle_note_keys_inv)

lemma init_state_inv: "voice_inv init_state"
  by (simp add: voice_inv_def init_state_def)

text \<open>
  C7. From the initial state (note 30, octave 2, min_note 12, max_note 131), after any
  sequence of key-down events the octave lies in [0, 6] and the note in
  [min_note, max_note] = [12, 131].
\<close>

theorem C7_voice_state_clamped:
  "0 \<le> octave (key_downs ks init_state) \<and> octave (key_downs ks init_state) \<le> 6
   \<and> min_note (key_downs ks init_state) = 12 \<and> max_note (key_downs ks init_state) = 131
   \<and> 12 \<le> note (key_downs ks init_state) \<and> note (key_downs ks init_state) \<le> 131"
  using key_downs_inv [OF init_state_inv, of ks] by (simp add: voice_inv_def)

text \<open>
  C8. An octave increment at octave 6 leaves the octave at 6 and the note unchanged; an
  octave decrement at octave 0 leaves the octave at 0 and the note unchanged; the shift of
  the note by 12 happens only when the octave was not already at that boundary.
\<close>

theorem C8_octave_boundary:
  "(octave s = 6 \<longrightarrow> octave (handle_note_keys SDLK_PLUS s) = 6
        \<and> note (handle_note_keys SDLK_PLUS s) = note s)
   \<and> (octave s = 0 \<longrightarrow> octave (handle_note_keys SDLK_MINUS s) = 0
        \<and> note (handle_note_keys SDLK_MINUS s) = note s)
   \<and> (note (handle_note_keys SDLK_PLUS s) \<noteq> note s \<longrightarrow> octave s < 6)
   \<and> (note (handle_note_keys SDLK_MINUS s) \<noteq> note s \<longrightarrow> 0 < octave s)
   \<and> (octave s < 6 \<longrightarrow> note (handle_note_keys SDLK_PLUS s) = min (note s + 12) (max_note s))
   \<and> (0 < octave s \<longrightarrow> note (handle_note_keys SDLK_MINUS s) = max (note s - 12) (min_note s))"
  by (auto simp: handle_note_keys_def Let_def)

theorem C8_octave_boundary_witness:
  "octave (init_state\<lparr>octave := 6\<rparr>) = 6
   \<and> octave (handle_note_keys SDLK_PLUS (init_state\<lparr>octave := 6\<rparr>)) = 6
   \<and> note (handle_note_keys SDLK_PLUS (init_state\<lparr>octave := 6\<rparr>)) = 30
   \<and> octave (init_state\<lparr>octave := 0\<rparr>) = 0
   \<and> octave (handle_note_keys SDLK_MINUS (init_state\<lparr>octave := 0\<rparr>)) = 0
   \<and> note (handle_note_keys SDLK_MINUS (init_state\<lparr>octave := 0\<rparr>)) = 30
   \<and> note (handle_note_keys SDLK_PLUS init_state) = 42 \<and> octave init_state < 6
   \<and> note (handle_note_keys SDLK_MINUS init_state) = 18 \<and> 0 < octave init_state"
  using C8_octave_boundary [of "init_state\<lparr>octave := 6\<rparr>"]
    C8_octave_boundary [of "init_state\<lparr>octave := 0\<rparr>"]
    C8_octave_boundary [of init_state]
  by (simp add: init_state_def)

section \<open>Properties of the audio callback\<close>

declare write_loop.simps [simp del] chunk_loop.simps [simp del]

lemma advance_phase_fields [simp]:
  "table_length (advance_phase inc s) = table_length s"
  "sine_wave_table (advance_phase inc s) = sine_wave_table s"
  "note (advance_phase inc s) = note s"
  "sample_rate (advance_phase inc s) = sample_rate s"
  "quit (advance_phase inc s) = quit s"
  "octave (advance_phase inc s) = octave s"
  "min_note (advance_phase inc s) = min_note s"
  "max_note (advance_phase inc s) = max_note s"
  by (simp_all add: advance_phase_def Let_def)

lemma phase_increment_advance [simp]:
  "phase_increment (advance_phase inc s) = phase_increment s"
  by (simp add: phase_increment_def)

lemma funpow_fields [simp]:
  "table_length ((advance_phase inc ^^ k) s) = table_length s"
  "sine_wave_table ((advance_phase inc ^^ k) s) = sine_wave_table s"
  "note ((advance_phase inc ^^ k) s) = note s"
  "phase_increment ((advance_phase inc ^^ k) s) = phase_increment s"
  by (induction k) simp_all


lemma write_frame_ok:
  assumes tab: "length (sine_wave_table s) = nat (table_length s)"
    and lo: "0 \<le> i + b" and hi: "nat (i + b + 1) < length buf"
  shows "\<exists>buf'. write_frame inc b i (s, Some buf) = Inr (advance_phase inc s, Some buf')
           \<and> length buf' = length buf
           \<and> (\<forall>j. j \<noteq> nat (i + b) \<and> j \<noteq> nat (i + b + 1) \<longrightarrow> buf' ! j = buf ! j)
           \<and> (buf' = buf \<or> buf' ! nat (i + b) = buf' ! nat (i + b + 1))"
proof -
  let ?s = "advance_phase inc s"
  show ?thesis
  proof (cases "phase_int ?s < table_length ?s \<and> phase_int ?s > - 1")
    case False
    then show ?thesis by (auto simp: write_frame_def Let_def)
  next
    case True
    then have rd: "nat (phase_int ?s) < length (sine_wave_table ?s)"
      using tab by simp
    have ne: "nat (i + b) \<noteq> nat (i + b + 1)" using lo by simp
    have lt: "nat (i + b) < length buf" using lo hi by simp
    show ?thesis using True rd lo hi ne lt
      by (simp add: write_frame_def Let_def nth_list_update)
  qed
qed


lemma pairs_iff:
  "pairs buf \<longleftrightarrow> (\<forall>f. 2 * f + 1 < length buf \<longrightarrow> buf ! (2 * f) = buf ! (2 * f + 1))"
proof -
  have "f < length buf div 2 \<longleftrightarrow> 2 * f + 1 < length buf" for f by linarith
  then show ?thesis unfolding pairs_def Ball_def atLeastLessThan_iff by simp
qed

lemma pairs_update:
  assumes "pairs buf" "even k" "length buf' = length buf"
    and "\<forall>j. j \<noteq> k \<and> j \<noteq> Suc k \<longrightarrow> buf' ! j = buf ! j"
    and "buf' = buf \<or> buf' ! k = buf' ! Suc k"
  shows "pairs buf'"
proof (cases "buf' = buf")
  case True
  then show ?thesis using assms(1) by simp
next
  case False
  then have eq: "buf' ! k = buf' ! Suc k" using assms(5) by simp
  obtain m where m: "k = 2 * m" using assms(2) by (auto elim: evenE)
  show ?thesis
    unfolding pairs_iff
  proof (intro allI impI)
    fix f assume f: "2 * f + 1 < length buf'"
    show "buf' ! (2 * f) = buf' ! (2 * f + 1)"
    proof (cases "f = m")
      case True
      then show ?thesis using eq m by simp
    next
      case False
      then have "2 * f \<noteq> k" "2 * f \<noteq> Suc k" "2 * f + 1 \<noteq> k" "2 * f + 1 \<noteq> Suc k"
        using m by presburger+
      then have "buf' ! (2 * f) = buf ! (2 * f)" "buf' ! (2 * f + 1) = buf ! (2 * f + 1)"
        using assms(4) by blast+
      moreover have "buf ! (2 * f) = buf ! (2 * f + 1)"
        using assms(1) f assms(3) by (simp add: pairs_iff)
      ultimately show ?thesis by simp
    qed
  qed
qed

lemma write_loop_ok:
  assumes tab: "length (sine_wave_table s) = nat (table_length s)"
    and b: "0 \<le> b" "even b" and i: "0 \<le> i" "even i" and len: "even len"
    and fit: "nat (b + len) \<le> length buf"
  shows "\<exists>buf'. write_loop inc b len i (s, Some buf)
             = Inr ((advance_phase inc ^^ nat ((len - i) div 2)) s, Some buf')
           \<and> length buf' = length buf
           \<and> (\<forall>j. j < nat (i + b) \<or> nat (b + len) \<le> j \<longrightarrow> buf' ! j = buf ! j)
           \<and> (pairs buf \<longrightarrow> pairs buf')"
  using tab i fit
proof (induction "nat (len - i)" arbitrary: i s buf rule: less_induct)
  case less
  show ?case
  proof (cases "i < len")
    case False
    then have "nat ((len - i) div 2) = 0" by simp
    with False show ?thesis by (simp add: write_loop.simps)
  next
    case True
    have i2: "i + 2 \<le> len" using True less.prems(3) len by presburger
    have lo: "0 \<le> i + b" using less.prems(2) b by simp
    have hi: "nat (i + b + 1) < length buf" using i2 less.prems(4) lo by linarith
    obtain buf1 where f1: "write_frame inc b i (s, Some buf) = Inr (advance_phase inc s, Some buf1)"
      and l1: "length buf1 = length buf"
      and u1: "\<forall>j. j \<noteq> nat (i + b) \<and> j \<noteq> nat (i + b + 1) \<longrightarrow> buf1 ! j = buf ! j"
      and p1: "buf1 = buf \<or> buf1 ! nat (i + b) = buf1 ! nat (i + b + 1)"
      using write_frame_ok [OF less.prems(1) lo hi, of inc] by blast
    have suc: "nat (i + b + 1) = Suc (nat (i + b))" using lo by simp
    have ev: "even (nat (i + b))" using less.prems(3) b lo by (simp add: even_nat_iff)
    have pr1: "pairs buf \<longrightarrow> pairs buf1"
      using pairs_update [OF _ ev l1] u1 p1 unfolding suc by blast
    have "nat (len - (i + 2)) < nat (len - i)" using True by simp
    moreover have "length (sine_wave_table (advance_phase inc s)) = nat (table_length (advance_phase inc s))"
      using less.prems(1) by simp
    moreover have "0 \<le> i + 2" "even (i + 2)" using less.prems(2,3) by simp_all
    moreover have "nat (b + len) \<le> length buf1" using less.prems(4) l1 by simp
    ultimately obtain buf' where
      r: "write_loop inc b len (i + 2) (advance_phase inc s, Some buf1)
            = Inr ((advance_phase inc ^^ nat ((len - (i + 2)) div 2)) (advance_phase inc s), Some buf')"
      and l2: "length buf' = length buf1"
      and u2: "\<forall>j. j < nat (i + 2 + b) \<or> nat (b + len) \<le> j \<longrightarrow> buf' ! j = buf1 ! j"
      and p2: "pairs buf1 \<longrightarrow> pairs buf'"
      using less.hyps [of "i + 2" "advance_phase inc s" buf1] by blast
    have cnt: "nat ((len - i) div 2) = Suc (nat ((len - (i + 2)) div 2))"
      using i2 by linarith
    have st: "(advance_phase inc ^^ nat ((len - (i + 2)) div 2)) (advance_phase inc s)
        = (advance_phase inc ^^ nat ((len - i) div 2)) s"
      unfolding cnt by (simp add: funpow_swap1)
    have eq: "write_loop inc b len i (s, Some buf)
        = Inr ((advance_phase inc ^^ nat ((len - i) div 2)) s, Some buf')"
      using True f1 r st by (subst write_loop.simps) simp
    have fr: "\<forall>j. j < nat (i + b) \<or> nat (b + len) \<le> j \<longrightarrow> buf' ! j = buf ! j"
    proof (intro allI impI)
      fix j assume j: "j < nat (i + b) \<or> nat (b + len) \<le> j"
      then have "j < nat (i + 2 + b) \<or> nat (b + len) \<le> j" by linarith
      then have "buf' ! j = buf1 ! j" using u2 by blast
      moreover have "j \<noteq> nat (i + b) \<and> j \<noteq> nat (i + b + 1)" using j i2 lo by linarith
      ultimately show "buf' ! j = buf ! j" using u1 by simp
    qed
    show ?thesis using eq l1 l2 fr pr1 p2 by auto
  qed
qed


lemma write_samples_silent:
  "note s \<le> 0 \<Longrightarrow> write_samples st b e len s = Inr (s, st)"
  by (simp add: write_samples_def)

lemma chunk_loop_silent:
  "note s \<le> 0 \<Longrightarrow> chunk_loop cs iterations i (s, st) = Inr (s, st)"
proof (induction "nat (iterations - i)" arbitrary: i rule: less_induct)
  case less
  show ?case
  proof (cases "i < iterations")
    case False
    then show ?thesis by (simp add: chunk_loop.simps)
  next
    case True
    then have "nat (iterations - (i + 1)) < nat (iterations - i)" by simp
    then have "chunk_loop cs iterations (i + 1) (s, st) = Inr (s, st)"
      using less.hyps less.prems by blast
    then show ?thesis using True less.prems
      by (subst chunk_loop.simps) (simp add: write_samples_silent Let_def)
  qed
qed

lemma chunk_loop_ok:
  assumes pos: "note s > 0"
    and tab: "length (sine_wave_table s) = nat (table_length s)"
    and i: "0 \<le> i"
    and fit: "64 * nat iterations \<le> length buf"
  shows "\<exists>buf'. chunk_loop 64 iterations i (s, Some buf)
             = Inr ((advance_phase (phase_increment s) ^^ (32 * nat (iterations - i))) s, Some buf')
           \<and> length buf' = length buf
           \<and> (\<forall>j. 64 * nat iterations \<le> j \<longrightarrow> buf' ! j = buf ! j)
           \<and> (pairs buf \<longrightarrow> pairs buf')"
  using pos tab i fit
proof (induction "nat (iterations - i)" arbitrary: i s buf rule: less_induct)
  case less
  let ?inc = "phase_increment s"
  show ?case
  proof (cases "i < iterations")
    case False
    then have "nat (iterations - i) = 0" by simp
    with False show ?thesis by (simp add: chunk_loop.simps)
  next
    case True
    have fit1: "nat (i * 64 + 64) \<le> length buf"
      using True less.prems(3,4) by linarith
    obtain buf1 where
      w: "write_loop ?inc (i * 64) 64 0 (s, Some buf)
            = Inr ((advance_phase ?inc ^^ nat ((64 - 0) div 2)) s, Some buf1)"
      and l1: "length buf1 = length buf"
      and u1: "\<forall>j. j < nat (0 + i * 64) \<or> nat (i * 64 + 64) \<le> j \<longrightarrow> buf1 ! j = buf ! j"
      and p1: "pairs buf \<longrightarrow> pairs buf1"
      using write_loop_ok [OF less.prems(2), of "i * 64" 0 64 buf ?inc] less.prems(3) fit1
      by auto
    let ?s1 = "(advance_phase ?inc ^^ 32) s"
    have n32: "nat ((64 - 0) div 2) = (32::nat)" by simp
    have ws: "write_samples (Some buf) (i * 64) (i * 64 + 64) 64 s = Inr (?s1, Some buf1)"
      using w less.prems(1) unfolding n32 by (simp add: write_samples_def)
    have "nat (iterations - (i + 1)) < nat (iterations - i)" using True by simp
    moreover have "note ?s1 > 0" using less.prems(1) by simp
    moreover have "length (sine_wave_table ?s1) = nat (table_length ?s1)"
      using less.prems(2) by simp
    moreover have "0 \<le> i + 1" using less.prems(3) by simp
    moreover have "64 * nat iterations \<le> length buf1" using less.prems(4) l1 by simp
    ultimately obtain buf' where
      r: "chunk_loop 64 iterations (i + 1) (?s1, Some buf1)
           = Inr ((advance_phase (phase_increment ?s1) ^^ (32 * nat (iterations - (i + 1)))) ?s1, Some buf')"
      and l2: "length buf' = length buf1"
      and u2: "\<forall>j. 64 * nat iterations \<le> j \<longrightarrow> buf' ! j = buf1 ! j"
      and p2: "pairs buf1 \<longrightarrow> pairs buf'"
      using less.hyps [of "i + 1" ?s1 buf1] by blast
    have cnt: "32 * nat (iterations - i) = 32 * nat (iterations - (i + 1)) + 32"
      using True by linarith
    have st: "(advance_phase (phase_increment ?s1) ^^ (32 * nat (iterations - (i + 1)))) ?s1
        = (advance_phase ?inc ^^ (32 * nat (iterations - i))) s"
      unfolding cnt by (simp add: funpow_add)
    have eq: "chunk_loop 64 iterations i (s, Some buf)
        = Inr ((advance_phase ?inc ^^ (32 * nat (iterations - i))) s, Some buf')"
      using True ws r st by (subst chunk_loop.simps) (simp add: Let_def)
    have fr: "\<forall>j. 64 * nat iterations \<le> j \<longrightarrow> buf' ! j = buf ! j"
    proof (intro allI impI)
      fix j assume j: "64 * nat iterations \<le> j"
      then have "nat (i * 64 + 64) \<le> j" using True less.prems(3) by linarith
      then show "buf' ! j = buf ! j" using u1 u2 j by simp
    qed
    show ?thesis using eq l1 l2 fr p1 p2 by auto
  qed
qed

lemma sdiv_nonneg: "0 \<le> a \<Longrightarrow> 0 < b \<Longrightarrow> a sdiv b = a div (b::int)"
  by (cases "a = 0") (simp_all add: signed_divide_int_def)

lemma pairs_replicate: "pairs (replicate n 0)"
  by (simp add: pairs_iff)

text \<open>The callback on a well-formed buffer, for an audible note.\<close>

lemma audio_callback_ok:
  assumes L: "0 \<le> L" and buf: "length byte_stream = nat (L div 2)"
    and tab: "length (sine_wave_table s) = nat (table_length s)"
    and pos: "note s > 0" and run: "\<not> quit s"
  shows "\<exists>out. audio_callback byte_stream L s
             = Inr ((advance_phase (phase_increment s) ^^ (32 * nat (L div 2 div 64))) s, Some out)
           \<and> length out = length byte_stream
           \<and> (\<forall>j. 64 * nat (L div 2 div 64) \<le> j \<and> j < length out \<longrightarrow> out ! j = 0)
           \<and> pairs out"
proof -
  let ?z = "replicate (length byte_stream) (0::16 word)"
  let ?it = "L div 2 div 64"
  have r: "L sdiv 2 = L div 2" "(L div 2) sdiv 64 = ?it"
    using L by (simp_all add: sdiv_nonneg)
  have "64 * nat ?it \<le> nat (L div 2)" using L by linarith
  then have fit: "64 * nat ?it \<le> length ?z" using buf by simp
  obtain out where
    c: "chunk_loop 64 ?it 0 (s, Some ?z)
          = Inr ((advance_phase (phase_increment s) ^^ (32 * nat (?it - 0))) s, Some out)"
    and l: "length out = length ?z"
    and u: "\<forall>j. 64 * nat ?it \<le> j \<longrightarrow> out ! j = ?z ! j"
    and p: "pairs ?z \<longrightarrow> pairs out"
    using chunk_loop_ok [OF pos tab _ fit, of 0] by auto
  have "audio_callback byte_stream L s
      = Inr ((advance_phase (phase_increment s) ^^ (32 * nat ?it)) s, Some out)"
    using c run r by (simp add: audio_callback_def Let_def)
  moreover have "\<forall>j. 64 * nat ?it \<le> j \<and> j < length out \<longrightarrow> out ! j = 0"
    using u l by simp
  ultimately show ?thesis using l p pairs_replicate by auto
qed

lemma audio_callback_silent:
  assumes "note s \<le> 0 \<or> quit s"
  shows "audio_callback byte_stream L s = Inr (s, Some (replicate (length byte_stream) 0))"
  using assms by (auto simp: audio_callback_def Let_def chunk_loop_silent)

text \<open>
  C5. In a callback invocation with note \<le> 0 the whole output buffer is zero after the
  call and the oscillator phase (\<open>phase_double\<close> and \<open>phase_int\<close>) is what it was before;
  this holds whether or not the shutdown flag is set.
\<close>

theorem C5_silent_callback:
  "note s \<le> 0 \<Longrightarrow>
     \<exists>s' out. audio_callback byte_stream L s = Inr (s', Some out)
       \<and> out = replicate (length byte_stream) 0
       \<and> phase_double s' = phase_double s \<and> phase_int s' = phase_int s \<and> s' = s"
  by (simp add: audio_callback_silent)

text \<open>
  C10. For a buffer of \<open>L\<close> bytes only the first \<open>64 * ((L div 2) div 64)\<close> sample slots
  can be written: the trailing \<open>(L div 2) mod 64\<close> slots keep the zero of the initial
  zero-fill, and a buffer of fewer than 64 slots comes back entirely silent, whatever the note.
\<close>

theorem C10_trailing_slots:
  assumes "0 \<le> L" and "length byte_stream = nat (L div 2)"
    and "length (sine_wave_table s) = nat (table_length s)"
  shows "\<exists>s' out. audio_callback byte_stream L s = Inr (s', Some out)
           \<and> length out = length byte_stream
           \<and> (\<forall>j. 64 * nat (L div 2 div 64) \<le> j \<and> j < length out \<longrightarrow> out ! j = 0)
           \<and> (L div 2 < 64 \<longrightarrow> out = replicate (length byte_stream) 0)"
proof -
  have "\<exists>s' out. audio_callback byte_stream L s = Inr (s', Some out)
           \<and> length out = length byte_stream
           \<and> (\<forall>j. 64 * nat (L div 2 div 64) \<le> j \<and> j < length out \<longrightarrow> out ! j = 0)"
  proof (cases "note s \<le> 0 \<or> quit s")
    case True
    then show ?thesis by (simp add: audio_callback_silent)
  next
    case False
    then show ?thesis using audio_callback_ok [OF assms] by auto
  qed
  then obtain s' out where *: "audio_callback byte_stream L s = Inr (s', Some out)"
    "length out = length byte_stream"
    "\<forall>j. 64 * nat (L div 2 div 64) \<le> j \<and> j < length out \<longrightarrow> out ! j = 0"
    by blast
  have "L div 2 < 64 \<longrightarrow> out = replicate (length byte_stream) 0"
  proof
    assume "L div 2 < 64"
    then have "nat (L div 2 div 64) = 0" using assms(1) by simp
    then have "\<forall>j<length out. out ! j = 0" using *(3) by simp
    then show "out = replicate (length byte_stream) 0"
      using *(2) by (simp add: list_eq_iff_nth_eq)
  qed
  with * show ?thesis by blast
qed


lemma write_frame_state:
  "write_frame inc b i st = Inr st' \<Longrightarrow> fst st' = advance_phase inc (fst st)"
  by (auto simp: write_frame_def Let_def split: if_splits option.splits)

lemma write_frame_no_table_fault:
  "length (sine_wave_table (fst st)) = nat (table_length (fst st))
     \<Longrightarrow> write_frame inc b i st \<noteq> Inl TableOutOfBounds"
  by (auto simp: write_frame_def Let_def split: option.splits)

lemma write_loop_no_table_fault:
  "length (sine_wave_table (fst st)) = nat (table_length (fst st))
     \<Longrightarrow> write_loop inc b len i st \<noteq> Inl TableOutOfBounds"
proof (induction inc b len i st rule: write_loop.induct)
  case (1 inc b len i st)
  show ?case
  proof (cases "i < len")
    case False
    then show ?thesis by (simp add: write_loop.simps)
  next
    case True
    show ?thesis
    proof (cases "write_frame inc b i st")
      case (Inl f)
      then have "f \<noteq> TableOutOfBounds"
        using write_frame_no_table_fault [OF "1.prems", of inc b i] by auto
      with Inl True show ?thesis by (subst write_loop.simps) simp
    next
      case (Inr st')
      then have "fst st' = advance_phase inc (fst st)" by (rule write_frame_state)
      then have "length (sine_wave_table (fst st')) = nat (table_length (fst st'))"
        using "1.prems" by simp
      then have "write_loop inc b len (i + 2) st' \<noteq> Inl TableOutOfBounds"
        using "1.IH" True Inr by blast
      with Inr True show ?thesis by (subst write_loop.simps) simp
    qed
  qed
qed

lemma write_loop_state:
  "write_loop inc b len i st = Inr st' \<Longrightarrow> \<exists>k. fst st' = (advance_phase inc ^^ k) (fst st)"
proof (induction inc b len i st rule: write_loop.induct)
  case (1 inc b len i st)
  show ?case
  proof (cases "i < len")
    case False
    then have "st' = st" using "1.prems" by (simp add: write_loop.simps)
    then have "fst st' = (advance_phase inc ^^ 0) (fst st)" by simp
    then show ?thesis by blast
  next
    case True
    then obtain st1 where f: "write_frame inc b i st = Inr st1"
      and r: "write_loop inc b len (i + 2) st1 = Inr st'"
      using "1.prems" by (subst (asm) write_loop.simps) (auto split: sum.splits)
    obtain k where "fst st' = (advance_phase inc ^^ k) (fst st1)"
      using "1.IH" [OF True f r] by blast
    then have "fst st' = (advance_phase inc ^^ Suc k) (fst st)"
      using write_frame_state [OF f] by (simp add: funpow_swap1)
    then show ?thesis by blast
  qed
qed

lemma write_samples_no_table_fault:
  "length (sine_wave_table s) = nat (table_length s)
     \<Longrightarrow> write_samples stream b e len s \<noteq> Inl TableOutOfBounds"
  using write_loop_no_table_fault [of "(s, stream)"] by (simp add: write_samples_def)

lemma write_samples_table:
  assumes "write_samples stream b e len s = Inr st'"
    and "length (sine_wave_table s) = nat (table_length s)"
  shows "length (sine_wave_table (fst st')) = nat (table_length (fst st'))"
proof (cases "note s > 0")
  case True
  then have "write_loop (phase_increment s) b len 0 (s, stream) = Inr st'"
    using assms(1) by (simp add: write_samples_def)
  then obtain k where "fst st' = (advance_phase (phase_increment s) ^^ k) (fst (s, stream))"
    using write_loop_state by blast
  then show ?thesis using assms(2) by simp
next
  case False
  then show ?thesis using assms by (auto simp: write_samples_def)
qed

lemma chunk_loop_no_table_fault:
  "length (sine_wave_table (fst st)) = nat (table_length (fst st))
     \<Longrightarrow> chunk_loop cs iterations i st \<noteq> Inl TableOutOfBounds"
proof (induction cs iterations i st rule: chunk_loop.induct)
  case (1 cs iterations i st)
  show ?case
  proof (cases "i < iterations")
    case False
    then show ?thesis by (simp add: chunk_loop.simps)
  next
    case True
    show ?thesis
    proof (cases "write_samples (snd st) (i * cs) (i * cs + cs) cs (fst st)")
      case (Inl f)
      then have "f \<noteq> TableOutOfBounds"
        using write_samples_no_table_fault [OF "1.prems"] by auto
      with Inl True show ?thesis by (subst chunk_loop.simps) (simp add: Let_def)
    next
      case (Inr st')
      then have "length (sine_wave_table (fst st')) = nat (table_length (fst st'))"
        using write_samples_table "1.prems" by blast
      then have "chunk_loop cs iterations (i + 1) st' \<noteq> Inl TableOutOfBounds"
        using "1.IH" [OF True refl refl Inr] by blast
      with Inr True show ?thesis by (subst chunk_loop.simps) (simp add: Let_def)
    qed
  qed
qed

text \<open>
  C9. In the per-frame step the wavetable is read only when \<open>phase_int\<close> lies in
  \<open>[0, table_length)\<close>: for an index outside that range the frame neither reads the table
  nor writes the buffer (whatever the table, even an empty one), and with a table of
  \<open>table_length\<close> entries no read of the oscillator is out of bounds.
\<close>

theorem C9_guarded_table_read:
  "(\<not> (- 1 < phase_int (advance_phase inc (fst st))
         \<and> phase_int (advance_phase inc (fst st)) < table_length (fst st))
      \<longrightarrow> write_frame inc b i st = Inr (advance_phase inc (fst st), snd st))
   \<and> (length (sine_wave_table (fst st)) = nat (table_length (fst st))
      \<longrightarrow> write_frame inc b i st \<noteq> Inl TableOutOfBounds)
   \<and> (length (sine_wave_table s) = nat (table_length s)
      \<longrightarrow> write_samples stream b e len s \<noteq> Inl TableOutOfBounds
        \<and> audio_callback byte_stream L s \<noteq> Inl TableOutOfBounds)"
proof -
  have "\<not> (- 1 < phase_int (advance_phase inc (fst st))
         \<and> phase_int (advance_phase inc (fst st)) < table_length (fst st))
      \<longrightarrow> write_frame inc b i st = Inr (advance_phase inc (fst st), snd st)"
    by (auto simp: write_frame_def Let_def)
  moreover have "length (sine_wave_table s) = nat (table_length s)
      \<longrightarrow> audio_callback byte_stream L s \<noteq> Inl TableOutOfBounds"
    using chunk_loop_no_table_fault [of "(s, Some (replicate (length byte_stream) 0))"]
    by (simp add: audio_callback_def Let_def)
  ultimately show ?thesis
    using write_frame_no_table_fault write_samples_no_table_fault by blast
qed

lemma length_sine_loop: "length (sine_loop n inc ph) = n"
  by (induction n inc ph rule: sine_loop.induct) simp_all

lemma length_build_sine_table: "length (build_sine_table n) = nat n"
  by (simp add: build_sine_table_def length_sine_loop)

lemma init_state_table: "length (sine_wave_table init_state) = nat (table_length init_state)"
  by (simp add: init_state_def length_build_sine_table)

theorem C5_silent_callback_witness:
  "note (init_state\<lparr>note := 0\<rparr>) \<le> 0
   \<and> (\<exists>s' out. audio_callback [1, 2, 3, 4] 8 (init_state\<lparr>note := 0\<rparr>) = Inr (s', Some out)
       \<and> out = [0, 0, 0, 0]
       \<and> phase_double s' = 0 \<and> phase_int s' = 0 \<and> s' = init_state\<lparr>note := 0\<rparr>)"
  using C5_silent_callback [of "init_state\<lparr>note := 0\<rparr>" "[1, 2, 3, 4]" 8]
  by (simp add: init_state_def numeral_eq_Suc)

theorem C10_trailing_slots_witness:
  "(0::int) \<le> 140 \<and> length (replicate 70 (1::16 word)) = nat (140 div 2)
   \<and> length (sine_wave_table init_state) = nat (table_length init_state)
   \<and> (\<exists>s' out. audio_callback (replicate 70 1) 140 init_state = Inr (s', Some out)
         \<and> length out = 70 \<and> (\<forall>j. 64 \<le> j \<and> j < length out \<longrightarrow> out ! j = 0))"
  using C10_trailing_slots [of 140 "replicate 70 1" init_state] init_state_table
  by simp

section \<open>Properties of the phase accumulator\<close>

lemma advance_phase_double:
  "phase_double (advance_phase inc s) = wrap_step inc (table_length s) (phase_double s)"
  by (simp add: advance_phase_def wrap_step_def wrap_def Let_def)

lemma advance_phase_int:
  "phase_int (advance_phase inc s) = int_of_double (phase_double (advance_phase inc s))"
  by (simp add: advance_phase_def Let_def)

lemma funpow_phase_double:
  "phase_double ((advance_phase inc ^^ k) s) = (wrap_step inc (table_length s) ^^ k) (phase_double s)"
  by (induction k) (simp_all add: advance_phase_double)

lemma funpow_phase_int:
  "0 < k \<Longrightarrow> phase_int ((advance_phase inc ^^ k) s)
     = int_of_double ((wrap_step inc (table_length s) ^^ k) (phase_double s))"
  by (cases k) (simp_all add: advance_phase_int funpow_phase_double advance_phase_double)

lemma wrap_step_range:
  assumes ph: "is_double ph" "0 \<le> ph" "ph < of_int n"
    and inc: "is_double inc" "0 < inc" "inc < of_int n"
    and n: "\<bar>n\<bar> < 2 ^ 53"
  shows "is_double (wrap_step inc n ph) \<and> 0 \<le> wrap_step inc n ph \<and> wrap_step inc n ph < of_int n"
proof -
  let ?s = "rd (ph + inc)"
  let ?m = "max ph inc"
  have nd: "double_of_int n = of_int n" using n by (rule double_of_int_eq)
  have m: "is_double ?m" "?m < of_int n" using ph inc by (simp_all add: max_def)
  have "ph + inc \<le> 2 * ?m" by simp
  then have "?s \<le> rd (2 * ?m)" by (rule rd_mono)
  then have s_hi: "?s \<le> 2 * ?m" using is_double_rd [OF is_double_twice [OF m(1)]] by simp
  have s_lo: "0 \<le> ?s" using ph(2) inc(2) by (intro rd_nonneg) simp
  show ?thesis
  proof (cases "?s \<ge> of_int n")
    case False
    then show ?thesis using s_lo nd by (simp add: wrap_step_def wrap_def dadd_def)
  next
    case True
    have "0 \<le> rd (?s - of_int n)" using True by (intro rd_nonneg) simp
    moreover have "?s - of_int n \<le> ?m" using s_hi m(2) by linarith
    then have "rd (?s - of_int n) \<le> rd ?m" by (rule rd_mono)
    then have "rd (?s - of_int n) < of_int n" using is_double_rd [OF m(1)] m(2) by linarith
    ultimately show ?thesis using True nd
      by (simp add: wrap_step_def wrap_def dadd_def dsub_def)
  qed
qed

text \<open>
  C2. For a phase in \<open>[0, N)\<close> and an increment \<open>0 < inc < N\<close> (both doubles, \<open>N\<close> the
  table length) one advance-and-wrap step leaves the phase in \<open>[0, N)\<close>, and so does any
  number \<open>k\<close> of steps. Rounding is part of the step: the bound holds for the rounded sums.
\<close>

theorem C2_phase_in_range:
  assumes "is_double (phase_double s)" and "is_double inc"
    and "0 < table_length s" and "table_length s < 2 ^ 31"
    and "0 \<le> phase_double s" and "phase_double s < of_int (table_length s)"
    and "0 < inc" and "inc < of_int (table_length s)"
  shows "0 \<le> phase_double (advance_phase inc s)
       \<and> phase_double (advance_phase inc s) < of_int (table_length s)
       \<and> 0 \<le> phase_double ((advance_phase inc ^^ k) s)
       \<and> phase_double ((advance_phase inc ^^ k) s) < of_int (table_length s)"
proof -
  let ?n = "table_length s"
  have n: "\<bar>?n\<bar> < 2 ^ 53" using assms(3,4) by simp
  have inv: "is_double ((wrap_step inc ?n ^^ j) (phase_double s))
      \<and> 0 \<le> (wrap_step inc ?n ^^ j) (phase_double s)
      \<and> (wrap_step inc ?n ^^ j) (phase_double s) < of_int ?n" for j
  proof (induction j)
    case 0
    then show ?case using assms(1,5,6) by simp
  next
    case (Suc j)
    then show ?case
      using wrap_step_range [OF _ _ _ assms(2,7,8) n, of "(wrap_step inc ?n ^^ j) (phase_double s)"]
      by simp
  qed
  from inv [of 1] inv [of k] show ?thesis
    by (simp add: funpow_phase_double advance_phase_double)
qed


lemma phase_run_numeral:
  "phase_run (numeral v) inc n ph = ph # phase_run (pred_numeral v) inc n (wrap_step inc n ph)"
  by (simp add: numeral_eq_Suc)

lemmas double_eval = dadd_def dsub_def dmul_def ddiv_def double_of_int_def rd_def rd_at_def
  expo_def pow2_def rne_def Let_def compute_bitlen wrap_step_def wrap_def int_of_double_def
  phase_run_numeral

lemma phase_run_funpow:
  "phase_run k inc n ph = map (\<lambda>j. (wrap_step inc n ^^ j) ph) [0..<k]"
proof (induction k arbitrary: ph)
  case 0
  then show ?case by simp
next
  case (Suc k)
  have "map (\<lambda>j. (wrap_step inc n ^^ j) ph) [0..<Suc k]
      = ph # map (\<lambda>j. (wrap_step inc n ^^ j) ph) (map Suc [0..<k])"
    by (simp only: upt_conv_Cons [of 0 "Suc k"] map_Suc_upt) simp
  also have "map (\<lambda>j. (wrap_step inc n ^^ j) ph) (map Suc [0..<k])
      = map (\<lambda>j. (wrap_step inc n ^^ j) (wrap_step inc n ph)) [0..<k]"
    by (simp add: funpow_swap1)
  finally show ?case using Suc.IH [of "wrap_step inc n ph"] by simp
qed

lemma frame_index_Suc:
  "frame_index inc s (Suc j)
     = int_of_double ((wrap_step inc (table_length s) ^^ j) (wrap_step inc (table_length s) (phase_double s)))"
proof -
  let ?w = "wrap_step inc (table_length s)"
  have "phase_int ((advance_phase inc ^^ Suc j) s) = int_of_double ((?w ^^ Suc j) (phase_double s))"
    by (rule funpow_phase_int) simp
  also have "(?w ^^ Suc j) (phase_double s) = (?w ^^ j) (?w (phase_double s))"
    by (simp add: funpow_swap1)
  finally show ?thesis by (simp only: frame_index_def)
qed

lemma frame_index_run:
  "map (frame_index inc s) [1..<Suc k]
     = map int_of_double (phase_run k inc (table_length s) (wrap_step inc (table_length s) (phase_double s)))"
proof -
  have eq: "[1..<Suc k] = map Suc [0..<k]" by (simp only: map_Suc_upt One_nat_def)
  show ?thesis unfolding eq by (simp add: phase_run_funpow comp_def frame_index_Suc)
qed

lemma rd_1 [simp]: "rd 1 = 1"
  using is_double_rd [OF is_double_of_int [of 1]] by simp

lemma chromatic_ratio_pos: "0 < chromatic_ratio"
  unfolding chromatic_ratio_def by (rule rd_pos) simp

lemma get_pitch_57: "get_pitch (double_of_int 57) = 440"
proof -
  have a: "double_of_int 57 = 57" using double_of_int_eq [of 57] by simp
  have b: "chromatic_ratio \<noteq> 0" using chromatic_ratio_pos by linarith
  have c: "rd 440 = 440" using is_double_rd [OF is_double_of_int [of 440]] by simp
  show ?thesis by (simp add: get_pitch_def a dsub_def c_pow_def b dmul_def c)
qed

lemma phase_increment_57:
  "phase_increment (init_state\<lparr>note := 57\<rparr>) = 2875767925323201 / 281474976710656"
proof -
  have "dmul (ddiv 440 (double_of_int 44100)) (double_of_int 1024) = 2875767925323201 / 281474976710656"
    by (simp add: double_eval)
  then show ?thesis by (simp add: phase_increment_def init_state_def get_pitch_57)
qed

lemma scenario_code:
  "map (frame_index (2875767925323201 / 281474976710656) (init_state\<lparr>note := 57\<rparr>)) [1..<101] = [10, 20, 30, 40, 51, 61, 71, 81, 91, 102, 112, 122, 132, 143, 153, 163,
  173, 183, 194, 204, 214, 224, 234, 245, 255, 265, 275, 286, 296, 306, 316,
  326, 337, 347, 357, 367, 378, 388, 398, 408, 418, 429, 439, 449, 459, 469,
  480, 490, 500, 510, 521, 531, 541, 551, 561, 572, 582, 592, 602, 613, 623,
  633, 643, 653, 664, 674, 684, 694, 704, 715, 725, 735, 745, 756, 766, 776,
  786, 796, 807, 817, 827, 837, 847, 858, 868, 878, 888, 899, 909, 919, 929,
  939, 950, 960, 970, 980, 991, 1001, 1011, 1021]"
proof -
  have "map int_of_double (phase_run 100 (2875767925323201 / 281474976710656) 1024
          (wrap_step (2875767925323201 / 281474976710656) 1024 0)) = [10, 20, 30, 40, 51, 61, 71, 81, 91, 102, 112, 122, 132, 143, 153, 163,
  173, 183, 194, 204, 214, 224, 234, 245, 255, 265, 275, 286, 296, 306, 316,
  326, 337, 347, 357, 367, 378, 388, 398, 408, 418, 429, 439, 449, 459, 469,
  480, 490, 500, 510, 521, 531, 541, 551, 561, 572, 582, 592, 602, 613, 623,
  633, 643, 653, 664, 674, 684, 694, 704, 715, 725, 735, 745, 756, 766, 776,
  786, 796, 807, 817, 827, 837, 847, 858, 868, 878, 888, 899, 909, 919, 929,
  939, 950, 960, 970, 980, 991, 1001, 1011, 1021]"
    by (simp add: double_eval)
  moreover have "[1..<101] = [1..<Suc 100]" by simp
  ultimately show ?thesis
    by (simp only: frame_index_run) (simp add: init_state_def)
qed

lemma scenario_spec:
  "map (spec_index (2875767925323201 / 281474976710656) 1024) [1..<101] = [10, 20, 30, 40, 51, 61, 71, 81, 91, 102, 112, 122, 132, 143, 153, 163,
  173, 183, 194, 204, 214, 224, 234, 245, 255, 265, 275, 286, 296, 306, 316,
  326, 337, 347, 357, 367, 378, 388, 398, 408, 418, 429, 439, 449, 459, 469,
  480, 490, 500, 510, 521, 531, 541, 551, 561, 572, 582, 592, 602, 613, 623,
  633, 643, 653, 664, 674, 684, 694, 704, 715, 725, 735, 745, 756, 766, 776,
  786, 796, 807, 817, 827, 837, 847, 858, 868, 878, 888, 899, 909, 919, 929,
  939, 950, 960, 970, 980, 991, 1001, 1011, 1021]"
  by (simp add: upt_conv_Cons spec_index_def c_fmod_def double_eval)

lemma scenario_spec_exact:
  "map (spec_index_exact (440 / 44100 * 1024) 1024) [1..<101] = [10, 20, 30, 40, 51, 61, 71, 81, 91, 102, 112, 122, 132, 143, 153, 163,
  173, 183, 194, 204, 214, 224, 234, 245, 255, 265, 275, 286, 296, 306, 316,
  326, 337, 347, 357, 367, 378, 388, 398, 408, 418, 429, 439, 449, 459, 469,
  480, 490, 500, 510, 521, 531, 541, 551, 561, 572, 582, 592, 602, 613, 623,
  633, 643, 653, 664, 674, 684, 694, 704, 715, 725, 735, 745, 756, 766, 776,
  786, 796, 807, 817, 827, 837, 847, 858, 868, 878, 888, 899, 909, 919, 929,
  939, 950, 960, 970, 980, 991, 1001, 1011, 1021]"
  by (simp add: upt_conv_Cons spec_index_exact_def c_fmod_def int_of_double_def)

lemma funpow_numeral: "(f ^^ numeral v) x = (f ^^ pred_numeral v) (f x)"
  by (simp add: numeral_eq_Suc funpow_swap1)

lemma rd_tenth: "rd (1 / 10) = 3602879701896397 / 36028797018963968"
  by (simp add: double_eval)

text \<open>
  The scenario run on: 2205 frames take the exact phase 22 times around the table.
  The run is evaluated in five parts of 441 frames.
\<close>

lemma run_441_1:
  "(wrap_step (2875767925323201 / 281474976710656) 1024 ^^ 441) 0
     = 7205759403792781 / 17592186044416"
  by (simp add: funpow_numeral double_eval)

lemma run_441_2:
  "(wrap_step (2875767925323201 / 281474976710656) 1024 ^^ 441) (7205759403792781 / 17592186044416)
     = 7205759403792781 / 8796093022208"
  by (simp add: funpow_numeral double_eval)

lemma run_441_3:
  "(wrap_step (2875767925323201 / 281474976710656) 1024 ^^ 441) (7205759403792781 / 8796093022208)
     = 7205759403792721 / 35184372088832"
  by (simp add: funpow_numeral double_eval)

lemma run_441_4:
  "(wrap_step (2875767925323201 / 281474976710656) 1024 ^^ 441) (7205759403792721 / 35184372088832)
     = 5404319552844571 / 8796093022208"
  by (simp add: funpow_numeral double_eval)

lemma run_441_5:
  "(wrap_step (2875767925323201 / 281474976710656) 1024 ^^ 441) (5404319552844571 / 8796093022208)
     = 9007199254740961 / 8796093022208"
  by (simp add: funpow_numeral double_eval)

lemma run_2205:
  "(wrap_step (2875767925323201 / 281474976710656) 1024 ^^ 2205) 0 = 9007199254740961 / 8796093022208"
proof -
  have "(2205::nat) = 441 + (441 + (441 + (441 + 441)))" by simp
  then have "(wrap_step (2875767925323201 / 281474976710656) 1024 ^^ 2205) 0
      = (wrap_step (2875767925323201 / 281474976710656) 1024 ^^ (441 + (441 + (441 + (441 + 441))))) 0"
    by (rule arg_cong)
  then show ?thesis
    by (simp only: funpow_add o_apply run_441_1 run_441_2 run_441_3 run_441_4 run_441_5)
qed

lemma scenario_frame_2205:
  "frame_index (phase_increment (init_state\<lparr>note := 57\<rparr>)) (init_state\<lparr>note := 57\<rparr>) 2205 = 1023
   \<and> spec_index (phase_increment (init_state\<lparr>note := 57\<rparr>)) 1024 2205 = 0
   \<and> spec_index_exact (440 / 44100 * 1024) 1024 2205 = 0"
proof -
  let ?s = "init_state\<lparr>note := 57\<rparr>"
  have s: "table_length ?s = 1024" "phase_double ?s = 0" by (simp_all add: init_state_def)
  have "int_of_double (9007199254740961 / 8796093022208) = 1023"
    by (simp add: int_of_double_def)
  then have a: "frame_index (phase_increment ?s) ?s 2205 = 1023"
    using funpow_phase_int [of 2205 "phase_increment ?s" ?s]
    by (simp add: frame_index_def phase_increment_57 s run_2205)
  have b: "spec_index (2875767925323201 / 281474976710656) 1024 2205 = 0"
    by (simp add: spec_index_def c_fmod_def double_eval)
  have c: "spec_index_exact (440 / 44100 * 1024) 1024 2205 = 0"
    by (simp add: spec_index_exact_def c_fmod_def int_of_double_def)
  show ?thesis using a b c by (simp add: phase_increment_57)
qed

text \<open>
  C1, as stated, fails beyond the first frames of the scenario and for a general increment.
  With the scenario's own increment the oscillator reads index 1023 at frame 2205, where
  \<open>floor (fmod (2205 * d, 1024))\<close> is 0, in double and in exact arithmetic. With the increment
  \<open>0.1\<close> (the double nearest to it) and table length 1024, ten additions give a phase just
  below 1 and the index 0, while a single modulo of the cumulative advance \<open>10 * 0.1\<close> gives
  index 1, whether the product is rounded or exact.
\<close>

theorem C1_counterexample:
  "frame_index (phase_increment (init_state\<lparr>note := 57\<rparr>)) (init_state\<lparr>note := 57\<rparr>) 2205 = 1023
   \<and> spec_index (phase_increment (init_state\<lparr>note := 57\<rparr>)) 1024 2205 = 0
   \<and> spec_index_exact (440 / 44100 * 1024) 1024 2205 = 0
   \<and> 0 < rd (1 / 10) \<and> rd (1 / 10) < of_int (table_length init_state)
   \<and> frame_index (rd (1 / 10)) init_state 10 = 0
   \<and> spec_index (rd (1 / 10)) (table_length init_state) 10 = 1
   \<and> spec_index_exact (rd (1 / 10)) (table_length init_state) 10 = 1"
proof -
  have n: "table_length init_state = 1024" "phase_double init_state = 0"
    by (simp_all add: init_state_def)
  have "int_of_double ((wrap_step (3602879701896397 / 36028797018963968) 1024 ^^ 9)
          (wrap_step (3602879701896397 / 36028797018963968) 1024 0)) = 0"
    by (simp add: funpow_numeral double_eval)
  then have a: "frame_index (rd (1 / 10)) init_state 10 = 0"
    using frame_index_Suc [of "rd (1 / 10)" init_state 9] by (simp add: n rd_tenth)
  have b: "spec_index (rd (1 / 10)) (table_length init_state) 10 = 1"
    by (simp add: n rd_tenth spec_index_def c_fmod_def double_eval)
  have c: "spec_index_exact (rd (1 / 10)) (table_length init_state) 10 = 1"
    by (simp add: n rd_tenth spec_index_exact_def c_fmod_def int_of_double_def)
  have d: "0 < rd (1 / 10) \<and> rd (1 / 10) < of_int (table_length init_state)"
    by (simp add: n rd_tenth)
  from scenario_frame_2205 a b c d show ?thesis by blast
qed


lemma grid_bound:
  assumes "0 \<le> real_of_int c * pow2 (- 21)" "real_of_int c * pow2 (- 21) < 2 ^ 32"
  shows "\<bar>c\<bar> < 2 ^ 53"
proof -
  have u: "pow2 (- 21) = 1 / 2 ^ 21" by (simp add: pow2_def)
  have "0 \<le> real_of_int c" using assms(1) unfolding u by (simp add: zero_le_divide_iff)
  moreover have "real_of_int c < 2 ^ 32 * 2 ^ 21" using assms(2) unfolding u by (simp add: field_simps)
  then have "real_of_int c < real_of_int (2 ^ 53)" by simp
  then have "c < 2 ^ 53" by (simp only: of_int_less_iff)
  ultimately show ?thesis by simp
qed

lemma wrap_step_grid:
  assumes N: "0 < N" "N \<le> 2 ^ 31"
    and d: "0 < real_of_int a * pow2 (- 21)" "real_of_int a * pow2 (- 21) < of_int N"
    and p: "0 \<le> real_of_int c * pow2 (- 21)" "real_of_int c * pow2 (- 21) < of_int N"
  shows "\<exists>c' j. wrap_step (of_int a * pow2 (- 21)) N (of_int c * pow2 (- 21)) = of_int c' * pow2 (- 21)
           \<and> 0 \<le> real_of_int c' * pow2 (- 21) \<and> real_of_int c' * pow2 (- 21) < of_int N
           \<and> real_of_int c' * pow2 (- 21)
               = of_int c * pow2 (- 21) + of_int a * pow2 (- 21) - of_int N * of_int j
           \<and> 0 \<le> j"
proof -
  define u where "u = pow2 (- 21)"
  have u: "u * 2 ^ 21 = 1" unfolding u_def by (simp add: pow2_def)
  let ?p = "real_of_int c * u" and ?d = "real_of_int a * u"
  have Nr: "real_of_int N \<le> 2 ^ 31"
  proof -
    have "real_of_int N \<le> real_of_int (2 ^ 31)" using N(2) by (simp only: of_int_le_iff)
    then show ?thesis by simp
  qed
  have nd: "double_of_int N = of_int N" using N by (intro double_of_int_eq) simp
  have sum: "?p + ?d = real_of_int (c + a) * u" by (simp add: algebra_simps)
  have p32: "(2::real) ^ 32 = 2 * 2 ^ 31" by simp
  have b: "0 \<le> ?p + ?d" "?p + ?d < 2 ^ 32" using d p Nr p32 unfolding u_def by linarith+
  have b': "0 \<le> real_of_int (c + a) * u" "real_of_int (c + a) * u < 2 ^ 32"
    using b unfolding sum .
  have "\<bar>c + a\<bar> < 2 ^ 53" using b' [unfolded u_def] by (rule grid_bound)
  then have "rd (real_of_int (c + a) * u) = real_of_int (c + a) * u"
    unfolding u_def by (rule rd_repr)
  then have s: "dadd ?p ?d = ?p + ?d" unfolding dadd_def sum .
  show ?thesis
  proof (cases "?p + ?d \<ge> of_int N")
    case False
    then have "wrap_step ?d N ?p = real_of_int (c + a) * u"
      using s nd sum by (simp add: wrap_step_def wrap_def)
    moreover have "0 \<le> real_of_int (c + a) * u" "real_of_int (c + a) * u < of_int N"
      using False b(1) unfolding sum by linarith+
    moreover have "real_of_int (c + a) * u = ?p + ?d - of_int N * of_int 0"
      using sum by simp
    ultimately show ?thesis unfolding u_def by blast
  next
    case True
    have "of_int N = real_of_int (N * 2 ^ 21) * u" using u by simp
    then have diff: "?p + ?d - of_int N = real_of_int (c + a - N * 2 ^ 21) * u"
      unfolding sum by (simp only: of_int_diff left_diff_distrib)
    have r: "0 \<le> ?p + ?d - of_int N" "?p + ?d - of_int N < of_int N"
      using True d p unfolding u_def by linarith+
    then have r2: "?p + ?d - of_int N < 2 ^ 32" using Nr p32 by linarith
    have r': "0 \<le> real_of_int (c + a - N * 2 ^ 21) * u" "real_of_int (c + a - N * 2 ^ 21) * u < 2 ^ 32"
      using r(1) r2 unfolding diff .
    have "\<bar>c + a - N * 2 ^ 21\<bar> < 2 ^ 53" using r' [unfolded u_def] by (rule grid_bound)
    then have "rd (real_of_int (c + a - N * 2 ^ 21) * u) = real_of_int (c + a - N * 2 ^ 21) * u"
      unfolding u_def by (rule rd_repr)
    then have "rd (?p + ?d - of_int N) = ?p + ?d - of_int N" unfolding diff .
    then have "wrap_step ?d N ?p = ?p + ?d - of_int N"
      using s nd True by (simp add: wrap_step_def wrap_def dsub_def)
    then have "wrap_step ?d N ?p = real_of_int (c + a - N * 2 ^ 21) * u" unfolding diff .
    moreover have "0 \<le> real_of_int (c + a - N * 2 ^ 21) * u"
      "real_of_int (c + a - N * 2 ^ 21) * u < of_int N"
      using r unfolding diff by simp_all
    moreover have "real_of_int (c + a - N * 2 ^ 21) * u = ?p + ?d - of_int N * of_int 1"
      using diff by simp
    ultimately show ?thesis unfolding u_def by (intro exI [of _ "c + a - N * 2 ^ 21"] exI [of _ 1]) simp
  qed
qed

lemma c_fmod_unique:
  assumes "0 \<le> p" "p < y" "0 \<le> q" "x = p + y * of_int q"
  shows "c_fmod x y = p"
proof -
  have y: "0 < y" using assms(1,2) by linarith
  have "x / y = p / y + of_int q" using assms(4) y by (simp add: field_simps)
  moreover have "0 \<le> p / y" "p / y < 1" using assms(1,2) y by simp_all
  ultimately have f: "\<lfloor>x / y\<rfloor> = q" by linarith
  have "0 \<le> y * of_int q" using y assms(3) by simp
  then have "0 \<le> x" using assms(1,4) by linarith
  then have "0 \<le> x / y" using y by simp
  then have "int_of_double (x / y) = q" using f by (simp add: int_of_double_def)
  then show ?thesis using assms(4) by (simp add: c_fmod_def)
qed

lemma grid_run:
  assumes N: "0 < N" "N \<le> 2 ^ 31"
    and d: "0 < real_of_int a * pow2 (- 21)" "real_of_int a * pow2 (- 21) < of_int N"
  shows "\<exists>c q. (wrap_step (of_int a * pow2 (- 21)) N ^^ k) 0 = of_int c * pow2 (- 21)
           \<and> 0 \<le> real_of_int c * pow2 (- 21) \<and> real_of_int c * pow2 (- 21) < of_int N \<and> 0 \<le> q
           \<and> of_nat k * (of_int a * pow2 (- 21)) = real_of_int c * pow2 (- 21) + of_int N * of_int q"
proof (induction k)
  case 0
  show ?case using N(1)
    by (intro exI [of _ 0]) simp
next
  case (Suc k)
  let ?d = "real_of_int a * pow2 (- 21)"
  from Suc obtain c q where c: "(wrap_step ?d N ^^ k) 0 = of_int c * pow2 (- 21)"
    "0 \<le> real_of_int c * pow2 (- 21)" "real_of_int c * pow2 (- 21) < of_int N" "0 \<le> q"
    "of_nat k * ?d = real_of_int c * pow2 (- 21) + of_int N * of_int q" by blast
  from wrap_step_grid [OF N d c(2,3)] obtain c' j where
    w: "wrap_step ?d N (of_int c * pow2 (- 21)) = of_int c' * pow2 (- 21)"
    "0 \<le> real_of_int c' * pow2 (- 21)" "real_of_int c' * pow2 (- 21) < of_int N"
    "real_of_int c' * pow2 (- 21) = of_int c * pow2 (- 21) + ?d - of_int N * of_int j"
    "0 \<le> j" by blast
  have "(wrap_step ?d N ^^ Suc k) 0 = wrap_step ?d N ((wrap_step ?d N ^^ k) 0)" by simp
  then have 1: "(wrap_step ?d N ^^ Suc k) 0 = of_int c' * pow2 (- 21)"
    unfolding c(1) w(1) .
  have 2: "0 \<le> q + j" using c(4) w(5) by simp
  have "of_nat (Suc k) * ?d = of_nat k * ?d + ?d" by (simp add: algebra_simps)
  also have "\<dots> = real_of_int c' * pow2 (- 21) + of_int N * of_int (q + j)"
    unfolding c(5) w(4) by (simp add: algebra_simps)
  finally show ?case using 1 2 w(2,3) by blast
qed

lemma grid_index:
  assumes N: "0 < table_length s" "table_length s \<le> 2 ^ 31"
    and d: "0 < real_of_int a * pow2 (- 21)" "real_of_int a * pow2 (- 21) < of_int (table_length s)"
    and s: "phase_double s = 0" and k: "0 < k"
  shows "frame_index (of_int a * pow2 (- 21)) s k
       = spec_index_exact (of_int a * pow2 (- 21)) (table_length s) k"
proof -
  let ?d = "real_of_int a * pow2 (- 21)" and ?N = "table_length s"
  from grid_run [OF N d, of k] obtain c q where
    c: "(wrap_step ?d ?N ^^ k) 0 = of_int c * pow2 (- 21)"
    "0 \<le> real_of_int c * pow2 (- 21)" "real_of_int c * pow2 (- 21) < of_int ?N" "0 \<le> q"
    "of_nat k * ?d = real_of_int c * pow2 (- 21) + of_int ?N * of_int q" by blast
  have "c_fmod (of_nat k * ?d) (of_int ?N) = real_of_int c * pow2 (- 21)"
    using c(2,3,4,5) by (rule c_fmod_unique)
  then have "spec_index_exact ?d ?N k = \<lfloor>real_of_int c * pow2 (- 21)\<rfloor>"
    by (simp only: spec_index_exact_def)
  moreover have "frame_index ?d s k = int_of_double ((wrap_step ?d ?N ^^ k) 0)"
    using funpow_phase_int [OF k, of ?d s] s by (simp only: frame_index_def)
  ultimately show ?thesis using c(2) unfolding c(1) by (simp add: int_of_double_def)
qed

text \<open>
  C1, amended. With sample rate 44100, table length 1024 and note 57, the first 100 frames
  from the initial phase read exactly the wavetable indices \<open>floor (fmod (k * d, 1024))\<close>,
  \<open>k = 1..100\<close>, for \<open>d = (440 / 44100) * 1024\<close> in double and in exact arithmetic alike.
  In general the wrap rule and the single modulo give the same index at every step when
  the additions are exact: for every increment \<open>0 < d < N\<close> that is a multiple of
  \<open>2^-21\<close>, with \<open>N \<le> 2^31\<close>, from phase 0.
\<close>

theorem C1_index_sequence:
  "map (frame_index (phase_increment (init_state\<lparr>note := 57\<rparr>)) (init_state\<lparr>note := 57\<rparr>)) [1..<101]
     = map (spec_index (phase_increment (init_state\<lparr>note := 57\<rparr>)) 1024) [1..<101]
   \<and> map (frame_index (phase_increment (init_state\<lparr>note := 57\<rparr>)) (init_state\<lparr>note := 57\<rparr>)) [1..<101]
     = map (spec_index_exact (440 / 44100 * 1024) 1024) [1..<101]
   \<and> (0 < table_length s \<and> table_length s \<le> 2 ^ 31 \<and> phase_double s = 0
        \<and> 0 < a \<and> real_of_int a * pow2 (- 21) < of_int (table_length s) \<and> 0 < k
      \<longrightarrow> frame_index (of_int a * pow2 (- 21)) s k
          = spec_index_exact (of_int a * pow2 (- 21)) (table_length s) k)"
proof -
  let ?s = "init_state\<lparr>note := 57\<rparr>"
  have A: "map (frame_index (phase_increment ?s) ?s) [1..<101]
      = map (spec_index (phase_increment ?s) 1024) [1..<101]"
    by (simp only: phase_increment_57 scenario_code scenario_spec)
  have B: "map (frame_index (phase_increment ?s) ?s) [1..<101]
      = map (spec_index_exact (440 / 44100 * 1024) 1024) [1..<101]"
    by (simp only: phase_increment_57 scenario_code scenario_spec_exact)
  have "0 < a \<Longrightarrow> 0 < real_of_int a * pow2 (- 21)" by simp
  then have C: "0 < table_length s \<and> table_length s \<le> 2 ^ 31 \<and> phase_double s = 0
        \<and> 0 < a \<and> real_of_int a * pow2 (- 21) < of_int (table_length s) \<and> 0 < k
      \<longrightarrow> frame_index (of_int a * pow2 (- 21)) s k
          = spec_index_exact (of_int a * pow2 (- 21)) (table_length s) k"
    using grid_index [of s a k] by blast
  from A B C show ?thesis by blast
qed

theorem C1_index_sequence_witness:
  "0 < table_length init_state \<and> table_length init_state \<le> 2 ^ 31 \<and> phase_double init_state = 0
   \<and> (0::int) < 1259339776 \<and> real_of_int 1259339776 * pow2 (- 21) < of_int (table_length init_state)
   \<and> (0::nat) < 2
   \<and> frame_index (of_int 1259339776 * pow2 (- 21)) init_state 2
        = spec_index_exact (of_int 1259339776 * pow2 (- 21)) (table_length init_state) 2
   \<and> spec_index_exact (of_int 1259339776 * pow2 (- 21)) (table_length init_state) 2 = 177"
proof -
  have h: "0 < table_length init_state \<and> table_length init_state \<le> 2 ^ 31 \<and> phase_double init_state = 0
      \<and> (0::int) < 1259339776 \<and> real_of_int 1259339776 * pow2 (- 21) < of_int (table_length init_state)
      \<and> (0::nat) < 2"
    by (simp add: init_state_def pow2_def)
  have v: "spec_index_exact (of_int 1259339776 * pow2 (- 21)) (table_length init_state) 2 = 177"
    by (simp add: init_state_def pow2_def spec_index_exact_def c_fmod_def int_of_double_def)
  show ?thesis using h v C1_index_sequence [of init_state 1259339776 2] by simp
qed

theorem C2_phase_in_range_witness:
  "is_double (phase_double init_state) \<and> is_double (1201 / 2)
   \<and> 0 < table_length init_state \<and> table_length init_state < 2 ^ 31
   \<and> 0 \<le> phase_double init_state \<and> phase_double init_state < of_int (table_length init_state)
   \<and> (0::real) < 1201 / 2 \<and> (1201 / 2 :: real) < of_int (table_length init_state)
   \<and> 0 \<le> phase_double (advance_phase (1201 / 2) init_state)
   \<and> phase_double (advance_phase (1201 / 2) init_state) < of_int (table_length init_state)
   \<and> 0 \<le> phase_double ((advance_phase (1201 / 2) ^^ 2) init_state)
   \<and> phase_double ((advance_phase (1201 / 2) ^^ 2) init_state) < of_int (table_length init_state)
   \<and> phase_double ((advance_phase (1201 / 2) ^^ 2) init_state) = 177"
proof -
  have "(1201 / 2 :: real) = of_int 1201 * pow2 (- 1)" by (simp add: pow2_def)
  moreover have "\<bar>1201::int\<bar> < 2 ^ 53" by simp
  ultimately have d: "is_double (1201 / 2)" unfolding is_double_def by blast
  have s: "phase_double init_state = 0" "table_length init_state = 1024"
    by (simp_all add: init_state_def)
  have h: "is_double (phase_double init_state)" "0 < table_length init_state"
    "table_length init_state < 2 ^ 31" "0 \<le> phase_double init_state"
    "phase_double init_state < of_int (table_length init_state)"
    "(0::real) < 1201 / 2" "(1201 / 2 :: real) < of_int (table_length init_state)"
    by (simp_all add: s)
  have "(wrap_step (1201 / 2) 1024 ^^ 2) 0 = 177"
    by (simp add: funpow_numeral double_eval)
  then have v: "phase_double ((advance_phase (1201 / 2) ^^ 2) init_state) = 177"
    by (simp only: funpow_phase_double s)
  show ?thesis
    using C2_phase_in_range [OF h(1) d h(2-7), of 2] d h v by simp
qed

theorem C9_guarded_table_read_witness:
  "\<not> (- 1 < phase_int (advance_phase (- 1) (fst (init_state\<lparr>sine_wave_table := []\<rparr>, Some [5, 5])))
        \<and> phase_int (advance_phase (- 1) (fst (init_state\<lparr>sine_wave_table := []\<rparr>, Some [5, 5])))
            < table_length (fst (init_state\<lparr>sine_wave_table := []\<rparr>, Some [5, 5])))
   \<and> write_frame (- 1) 0 0 (init_state\<lparr>sine_wave_table := []\<rparr>, Some [5, 5])
       = Inr (advance_phase (- 1) (init_state\<lparr>sine_wave_table := []\<rparr>), Some [5, 5])
   \<and> length (sine_wave_table init_state) = nat (table_length init_state)
   \<and> write_frame (phase_increment init_state) 0 0 (init_state, Some (replicate 64 0)) \<noteq> Inl TableOutOfBounds
   \<and> write_samples (Some (replicate 64 0)) 0 64 64 init_state \<noteq> Inl TableOutOfBounds
   \<and> audio_callback (replicate 64 0) 128 init_state \<noteq> Inl TableOutOfBounds"
proof -
  let ?s0 = "init_state\<lparr>sine_wave_table := []\<rparr>"
  have "wrap_step (- 1) 1024 0 = - 1" by (simp add: double_eval)
  then have "phase_int (advance_phase (- 1) ?s0) = - 1"
    by (simp add: advance_phase_int advance_phase_double init_state_def int_of_double_def ceiling_def)
  then have g: "\<not> (- 1 < phase_int (advance_phase (- 1) (fst (?s0, Some [5, 5::16 word])))
        \<and> phase_int (advance_phase (- 1) (fst (?s0, Some [5, 5::16 word])))
            < table_length (fst (?s0, Some [5, 5::16 word])))"
    by simp
  show ?thesis
    using g init_state_table
      C9_guarded_table_read [where inc = "- 1" and st = "(?s0, Some [5, 5])" and b = 0 and i = 0
        and s = init_state and stream = "Some (replicate 64 0)" and e = 64 and len = 64
        and byte_stream = "replicate 64 0" and L = 128]
      C9_guarded_table_read [where inc = "phase_increment init_state"
        and st = "(init_state, Some (replicate 64 0))" and b = 0 and i = 0
        and s = init_state and stream = "Some (replicate 64 0)" and e = 64 and len = 64
        and byte_stream = "replicate 64 0" and L = 128]
    by simp
qed

section \<open>Chunks and frames\<close>

lemma frame_sample_shift:
  "frame_sample inc (advance_phase inc s) k = frame_sample inc s (Suc k)"
  by (simp add: frame_sample_def funpow_swap1)

lemma frame_sample_shift_many:
  "frame_sample inc ((advance_phase inc ^^ m) s) k = frame_sample inc s (k + m)"
  by (simp add: frame_sample_def funpow_add)

lemma write_frame_sample:
  assumes tab: "length (sine_wave_table s) = nat (table_length s)"
    and lo: "0 \<le> i + b" and hi: "nat (i + b + 1) < length buf"
  shows "\<exists>buf'. write_frame inc b i (s, Some buf) = Inr (advance_phase inc s, Some buf')
           \<and> buf' ! nat (i + b)
               = written (frame_sample inc s 1) (buf ! nat (i + b))
           \<and> buf' ! Suc (nat (i + b))
               = written (frame_sample inc s 1) (buf ! Suc (nat (i + b)))"
proof -
  let ?s = "advance_phase inc s"
  have suc: "nat (i + b + 1) = Suc (nat (i + b))" using lo by simp
  show ?thesis
  proof (cases "phase_int ?s < table_length ?s \<and> phase_int ?s > - 1")
    case False
    then show ?thesis by (auto simp: write_frame_def Let_def frame_sample_def written_def)
  next
    case True
    then have rd: "nat (phase_int ?s) < length (sine_wave_table ?s)"
      using tab by simp
    have lt: "nat (i + b) < length buf" "Suc (nat (i + b)) < length buf" using lo hi by simp_all
    show ?thesis using True rd lo hi lt suc
      by (simp add: write_frame_def Let_def frame_sample_def written_def)
  qed
qed

lemma write_loop_samples:
  assumes tab: "length (sine_wave_table s) = nat (table_length s)"
    and b: "0 \<le> b" "even b" and i: "0 \<le> i" "even i" and len: "even len"
    and fit: "nat (b + len) \<le> length buf"
    and res: "write_loop inc b len i (s, Some buf) = Inr (s', Some buf')"
    and k: "int k < (len - i) div 2"
  shows "buf' ! (nat (i + b) + 2 * k)
           = written (frame_sample inc s (Suc k)) (buf ! (nat (i + b) + 2 * k))
       \<and> buf' ! (nat (i + b) + 2 * k + 1)
           = written (frame_sample inc s (Suc k)) (buf ! (nat (i + b) + 2 * k + 1))"
  using tab i fit res k
proof (induction k arbitrary: i s buf)
  case 0
  have lt: "i < len" using "0.prems"(6) by linarith
  have i2: "i + 2 \<le> len" using lt "0.prems"(3) len by presburger
  have lo: "0 \<le> i + b" using "0.prems"(2) b by simp
  have hi: "nat (i + b + 1) < length buf" using i2 "0.prems"(4) lo by linarith
  obtain buf1 where f1: "write_frame inc b i (s, Some buf) = Inr (advance_phase inc s, Some buf1)"
    and v0: "buf1 ! nat (i + b)
        = written (frame_sample inc s 1) (buf ! nat (i + b))"
    and v1: "buf1 ! Suc (nat (i + b))
        = written (frame_sample inc s 1) (buf ! Suc (nat (i + b)))"
    using write_frame_sample [OF "0.prems"(1) lo hi, of inc] by blast
  obtain buf0 where l1: "length buf0 = length buf"
    and f0: "write_frame inc b i (s, Some buf) = Inr (advance_phase inc s, Some buf0)"
    using write_frame_ok [OF "0.prems"(1) lo hi, of inc] by blast
  then have l1: "length buf1 = length buf" using f1 by simp
  have rest: "write_loop inc b len (i + 2) (advance_phase inc s, Some buf1) = Inr (s', Some buf')"
    using "0.prems"(5) lt f1 by (subst (asm) write_loop.simps) simp
  obtain buf2 where
    r: "write_loop inc b len (i + 2) (advance_phase inc s, Some buf1)
          = Inr ((advance_phase inc ^^ nat ((len - (i + 2)) div 2)) (advance_phase inc s), Some buf2)"
    and u2: "\<forall>j. j < nat (i + 2 + b) \<or> nat (b + len) \<le> j \<longrightarrow> buf2 ! j = buf1 ! j"
    using write_loop_ok [of "advance_phase inc s" b "i + 2" len buf1 inc]
      "0.prems"(1,2,3,4) b len l1 by auto
  have same: "buf2 = buf'" using r rest by simp
  have "nat (i + b) < nat (i + 2 + b)" "Suc (nat (i + b)) < nat (i + 2 + b)" using lo by simp_all
  then have "buf' ! nat (i + b) = buf1 ! nat (i + b)" "buf' ! Suc (nat (i + b)) = buf1 ! Suc (nat (i + b))"
    using u2 same by blast+
  then show ?case using v0 v1 by simp
next
  case (Suc k)
  have lt: "i < len" using Suc.prems(6) by linarith
  have i2: "i + 2 \<le> len" using lt Suc.prems(3) len by presburger
  have lo: "0 \<le> i + b" using Suc.prems(2) b by simp
  have hi: "nat (i + b + 1) < length buf" using i2 Suc.prems(4) lo by linarith
  obtain buf1 where f1: "write_frame inc b i (s, Some buf) = Inr (advance_phase inc s, Some buf1)"
    and l1: "length buf1 = length buf"
    and u1: "\<forall>j. j \<noteq> nat (i + b) \<and> j \<noteq> nat (i + b + 1) \<longrightarrow> buf1 ! j = buf ! j"
    using write_frame_ok [OF Suc.prems(1) lo hi, of inc] by blast
  have rest: "write_loop inc b len (i + 2) (advance_phase inc s, Some buf1) = Inr (s', Some buf')"
    using Suc.prems(5) lt f1 by (subst (asm) write_loop.simps) simp
  have k': "int k < (len - (i + 2)) div 2" using Suc.prems(6) by linarith
  have tab': "length (sine_wave_table (advance_phase inc s)) = nat (table_length (advance_phase inc s))"
    using Suc.prems(1) by simp
  have fit': "nat (b + len) \<le> length buf1" using Suc.prems(4) l1 by simp
  have i': "0 \<le> i + 2" "even (i + 2)" using Suc.prems(2,3) by simp_all
  note ih = Suc.IH [OF tab' i' fit' rest k']
  have idx: "nat (i + 2 + b) + 2 * k = nat (i + b) + 2 * Suc k" using lo by simp
  have "nat (i + b) + 2 * Suc k \<noteq> nat (i + b)" "nat (i + b) + 2 * Suc k \<noteq> nat (i + b + 1)"
    "nat (i + b) + 2 * Suc k + 1 \<noteq> nat (i + b)" "nat (i + b) + 2 * Suc k + 1 \<noteq> nat (i + b + 1)"
    using lo by simp_all
  then have same: "buf1 ! (nat (i + b) + 2 * Suc k) = buf ! (nat (i + b) + 2 * Suc k)"
    "buf1 ! (nat (i + b) + 2 * Suc k + 1) = buf ! (nat (i + b) + 2 * Suc k + 1)"
    using u1 by blast+
  show ?case using ih unfolding idx frame_sample_shift same .
qed

lemma write_samples_chunk:
  assumes pos: "0 < note s" and tab: "length (sine_wave_table s) = nat (table_length s)"
    and c: "0 \<le> c" and fit: "nat (c * 64 + 64) \<le> length buf"
  shows "\<exists>buf'. write_samples (Some buf) (c * 64) (c * 64 + 64) 64 s
             = Inr ((advance_phase (phase_increment s) ^^ 32) s, Some buf')
           \<and> length buf' = length buf
           \<and> (\<forall>j. j < nat (c * 64) \<or> nat (c * 64 + 64) \<le> j \<longrightarrow> buf' ! j = buf ! j)
           \<and> (pairs buf \<longrightarrow> pairs buf')"
proof -
  have n32: "nat ((64 - 0) div 2) = (32::nat)" by simp
  from write_loop_ok [OF tab, of "c * 64" 0 64 buf "phase_increment s"] c fit
  obtain buf' where
    "write_loop (phase_increment s) (c * 64) 64 0 (s, Some buf)
       = Inr ((advance_phase (phase_increment s) ^^ nat ((64 - 0) div 2)) s, Some buf')"
    "length buf' = length buf"
    "\<forall>j. j < nat (0 + c * 64) \<or> nat (c * 64 + 64) \<le> j \<longrightarrow> buf' ! j = buf ! j"
    "pairs buf \<longrightarrow> pairs buf'"
    by auto
  then show ?thesis using pos unfolding n32 by (simp add: write_samples_def)
qed

lemma write_samples_chunk_samples:
  assumes pos: "0 < note s" and tab: "length (sine_wave_table s) = nat (table_length s)"
    and c: "0 \<le> c" and fit: "nat (c * 64 + 64) \<le> length buf"
    and res: "write_samples (Some buf) (c * 64) (c * 64 + 64) 64 s = Inr (s', Some buf')"
    and k: "k < 32"
  shows "buf' ! (nat (c * 64) + 2 * k)
           = written (frame_sample (phase_increment s) s (Suc k)) (buf ! (nat (c * 64) + 2 * k))
       \<and> buf' ! (nat (c * 64) + 2 * k + 1)
           = written (frame_sample (phase_increment s) s (Suc k)) (buf ! (nat (c * 64) + 2 * k + 1))"
proof -
  have w: "write_loop (phase_increment s) (c * 64) 64 0 (s, Some buf) = Inr (s', Some buf')"
    using res pos by (simp add: write_samples_def)
  have k': "int k < (64 - 0) div 2" using k by simp
  have "0 \<le> c * 64" "even (c * 64)" "(0::int) \<le> 0" "even (0::int)" "even (64::int)"
    using c by simp_all
  from write_loop_samples [OF tab this fit w k'] show ?thesis by simp
qed

lemma chunk_loop_samples:
  assumes pos: "note s > 0"
    and tab: "length (sine_wave_table s) = nat (table_length s)"
    and i: "0 \<le> i"
    and fit: "64 * nat iterations \<le> length buf"
    and res: "chunk_loop 64 iterations i (s, Some buf) = Inr (s', Some buf')"
  shows "(\<forall>j < 64 * nat i. buf' ! j = buf ! j)
       \<and> (\<forall>k < 32 * nat (iterations - i).
            buf' ! (64 * nat i + 2 * k)
              = written (frame_sample (phase_increment s) s (Suc k)) (buf ! (64 * nat i + 2 * k))
          \<and> buf' ! (64 * nat i + 2 * k + 1)
              = written (frame_sample (phase_increment s) s (Suc k)) (buf ! (64 * nat i + 2 * k + 1)))"
  using pos tab i fit res
proof (induction "nat (iterations - i)" arbitrary: i s buf rule: less_induct)
  case less
  let ?inc = "phase_increment s"
  show ?case
  proof (cases "i < iterations")
    case False
    then have "buf' = buf" using less.prems(5) by (simp add: chunk_loop.simps)
    moreover have "nat (iterations - i) = 0" using False by simp
    ultimately show ?thesis by simp
  next
    case True
    have fit1: "nat (i * 64 + 64) \<le> length buf"
      using True less.prems(3,4) by linarith
    have ni: "nat (i * 64) = 64 * nat i" "nat (i * 64 + 64) = 64 * nat i + 64"
      "nat (i + 1) = Suc (nat i)"
      using less.prems(3) by linarith+
    let ?s1 = "(advance_phase ?inc ^^ 32) s"
    obtain buf1 where
      ws: "write_samples (Some buf) (i * 64) (i * 64 + 64) 64 s = Inr (?s1, Some buf1)"
      and l1: "length buf1 = length buf"
      and u1: "\<forall>j. j < nat (i * 64) \<or> nat (i * 64 + 64) \<le> j \<longrightarrow> buf1 ! j = buf ! j"
      using write_samples_chunk [OF less.prems(1,2,3) fit1] by blast
    have rest: "chunk_loop 64 iterations (i + 1) (?s1, Some buf1) = Inr (s', Some buf')"
      using less.prems(5) True ws by (subst (asm) chunk_loop.simps) (simp add: Let_def)
    have "nat (iterations - (i + 1)) < nat (iterations - i)" using True by simp
    moreover have "note ?s1 > 0" using less.prems(1) by simp
    moreover have "length (sine_wave_table ?s1) = nat (table_length ?s1)"
      using less.prems(2) by simp
    moreover have "0 \<le> i + 1" using less.prems(3) by simp
    moreover have "64 * nat iterations \<le> length buf1" using less.prems(4) l1 by simp
    ultimately have ih:
      "\<forall>j < 64 * nat (i + 1). buf' ! j = buf1 ! j"
      "\<forall>k < 32 * nat (iterations - (i + 1)).
          buf' ! (64 * nat (i + 1) + 2 * k)
            = written (frame_sample (phase_increment ?s1) ?s1 (Suc k)) (buf1 ! (64 * nat (i + 1) + 2 * k))
        \<and> buf' ! (64 * nat (i + 1) + 2 * k + 1)
            = written (frame_sample (phase_increment ?s1) ?s1 (Suc k)) (buf1 ! (64 * nat (i + 1) + 2 * k + 1))"
      using less.hyps [of "i + 1" ?s1 buf1] rest by blast+
    have head: "\<forall>j < 64 * nat i. buf' ! j = buf ! j"
    proof (intro allI impI)
      fix j assume j: "j < 64 * nat i"
      then have "buf' ! j = buf1 ! j" using ih(1) ni(3) by simp
      then show "buf' ! j = buf ! j" using u1 j ni(1) by simp
    qed
    have body: "buf' ! (64 * nat i + 2 * k)
            = written (frame_sample ?inc s (Suc k)) (buf ! (64 * nat i + 2 * k))
        \<and> buf' ! (64 * nat i + 2 * k + 1)
            = written (frame_sample ?inc s (Suc k)) (buf ! (64 * nat i + 2 * k + 1))"
      if k: "k < 32 * nat (iterations - i)" for k
    proof (cases "k < 32")
      case True
      have "64 * nat i + 2 * k < 64 * nat (i + 1)" "64 * nat i + 2 * k + 1 < 64 * nat (i + 1)"
        using True ni(3) by simp_all
      then have "buf' ! (64 * nat i + 2 * k) = buf1 ! (64 * nat i + 2 * k)"
        "buf' ! (64 * nat i + 2 * k + 1) = buf1 ! (64 * nat i + 2 * k + 1)"
        using ih(1) by blast+
      then show ?thesis
        using write_samples_chunk_samples [OF less.prems(1,2,3) fit1 ws True] ni(1) by simp
    next
      case False
      define k' where "k' = k - 32"
      have kk: "k = k' + 32" using False by (simp add: k'_def)
      have "nat (iterations - i) = Suc (nat (iterations - (i + 1)))" using \<open>i < iterations\<close> by simp
      then have k'lt: "k' < 32 * nat (iterations - (i + 1))" using k kk by simp
      have idx: "64 * nat (i + 1) + 2 * k' = 64 * nat i + 2 * k" using kk ni(3) by simp
      have fs: "frame_sample (phase_increment ?s1) ?s1 (Suc k') = frame_sample ?inc s (Suc k)"
        using frame_sample_shift_many [of ?inc 32 s "Suc k'"] kk by simp
      have "nat (i * 64 + 64) \<le> 64 * nat i + 2 * k" "nat (i * 64 + 64) \<le> 64 * nat i + 2 * k + 1"
        using kk ni(2) by simp_all
      then have same: "buf1 ! (64 * nat i + 2 * k) = buf ! (64 * nat i + 2 * k)"
        "buf1 ! (64 * nat i + 2 * k + 1) = buf ! (64 * nat i + 2 * k + 1)"
        using u1 by blast+
      from ih(2) k'lt
      have "buf' ! (64 * nat (i + 1) + 2 * k')
            = written (frame_sample (phase_increment ?s1) ?s1 (Suc k')) (buf1 ! (64 * nat (i + 1) + 2 * k'))
        \<and> buf' ! (64 * nat (i + 1) + 2 * k' + 1)
            = written (frame_sample (phase_increment ?s1) ?s1 (Suc k')) (buf1 ! (64 * nat (i + 1) + 2 * k' + 1))"
        by blast
      then show ?thesis unfolding idx fs same .
    qed
    show ?thesis using head body by blast
  qed
qed

lemma audio_callback_samples:
  assumes L: "0 \<le> L" and buf: "length byte_stream = nat (L div 2)"
    and tab: "length (sine_wave_table s) = nat (table_length s)"
    and pos: "note s > 0" and run: "\<not> quit s"
    and res: "audio_callback byte_stream L s = Inr (s', Some out)"
    and f: "f < 32 * nat (L div 2 div 64)"
  shows "out ! (2 * f) = written (frame_sample (phase_increment s) s (Suc f)) 0
       \<and> out ! (2 * f + 1) = written (frame_sample (phase_increment s) s (Suc f)) 0"
proof -
  let ?z = "replicate (length byte_stream) (0::16 word)"
  let ?it = "L div 2 div 64"
  have r: "L sdiv 2 = L div 2" "(L div 2) sdiv 64 = ?it"
    using L by (simp_all add: sdiv_nonneg)
  have "64 * nat ?it \<le> nat (L div 2)" using L by linarith
  then have fit: "64 * nat ?it \<le> length ?z" using buf by simp
  have c: "chunk_loop 64 ?it 0 (s, Some ?z) = Inr (s', Some out)"
    using res run r by (simp add: audio_callback_def Let_def)
  have f': "f < 32 * nat (?it - 0)" using f by simp
  from chunk_loop_samples [OF pos tab _ fit c] f'
  have "out ! (64 * nat 0 + 2 * f)
          = written (frame_sample (phase_increment s) s (Suc f)) (?z ! (64 * nat 0 + 2 * f))
      \<and> out ! (64 * nat 0 + 2 * f + 1)
          = written (frame_sample (phase_increment s) s (Suc f)) (?z ! (64 * nat 0 + 2 * f + 1))"
    by simp
  moreover have "2 * f < length ?z" "2 * f + 1 < length ?z" using f fit by simp_all
  ultimately show ?thesis by simp
qed


text \<open>
  C6, amended. With note > 0 (and the shutdown flag clear) the callback runs the per-chunk
  fill over the slot ranges \<open>[64 c, 64 c + 64)\<close>, \<open>c = 0, 1, ...\<close>, of the 16-bit view of
  the buffer. A chunk is 64 sample slots, that is 32 stereo frames: one chunk call advances
  the phase exactly 32 times, once per frame, writes to both slots of frame \<open>k\<close> the scaled
  table entry at the index reached after \<open>k + 1\<close> advances (or leaves both as they were, when
  that index fails the guard), and touches no slot outside its range. A whole callback
  advances the phase \<open>32 * ((L div 2) div 64)\<close> times, and every frame of its output holds
  the same value in both channels.
\<close>

theorem C6_chunked_fill:
  assumes "0 < note s" and "\<not> quit s" and "length (sine_wave_table s) = nat (table_length s)"
  shows "(0 \<le> c \<and> nat (c * 64 + 64) \<le> length buf \<longrightarrow>
           (\<exists>buf'. write_samples (Some buf) (c * 64) (c * 64 + 64) 64 s
                = Inr ((advance_phase (phase_increment s) ^^ 32) s, Some buf')
              \<and> length buf' = length buf
              \<and> (\<forall>j. j < nat (c * 64) \<or> nat (c * 64 + 64) \<le> j \<longrightarrow> buf' ! j = buf ! j)
              \<and> (\<forall>k<32.
                   buf' ! (nat (c * 64) + 2 * k)
                     = written (frame_sample (phase_increment s) s (Suc k)) (buf ! (nat (c * 64) + 2 * k))
                 \<and> buf' ! (nat (c * 64) + 2 * k + 1)
                     = written (frame_sample (phase_increment s) s (Suc k)) (buf ! (nat (c * 64) + 2 * k + 1)))
              \<and> (pairs buf \<longrightarrow> pairs buf')))
       \<and> (0 \<le> L \<and> length byte_stream = nat (L div 2) \<longrightarrow>
           audio_callback byte_stream L s
             = chunk_loop 64 (L div 2 div 64) 0 (s, Some (replicate (length byte_stream) 0))
           \<and> (\<exists>out. audio_callback byte_stream L s
                = Inr ((advance_phase (phase_increment s) ^^ (32 * nat (L div 2 div 64))) s, Some out)
              \<and> length out = length byte_stream
              \<and> (\<forall>f < 32 * nat (L div 2 div 64).
                   out ! (2 * f) = written (frame_sample (phase_increment s) s (Suc f)) 0
                 \<and> out ! (2 * f + 1) = written (frame_sample (phase_increment s) s (Suc f)) 0)
              \<and> (\<forall>j. 64 * nat (L div 2 div 64) \<le> j \<and> j < length out \<longrightarrow> out ! j = 0)
              \<and> pairs out))"
proof -
  have A: "0 \<le> c \<and> nat (c * 64 + 64) \<le> length buf \<longrightarrow>
           (\<exists>buf'. write_samples (Some buf) (c * 64) (c * 64 + 64) 64 s
                = Inr ((advance_phase (phase_increment s) ^^ 32) s, Some buf')
              \<and> length buf' = length buf
              \<and> (\<forall>j. j < nat (c * 64) \<or> nat (c * 64 + 64) \<le> j \<longrightarrow> buf' ! j = buf ! j)
              \<and> (\<forall>k<32.
                   buf' ! (nat (c * 64) + 2 * k)
                     = written (frame_sample (phase_increment s) s (Suc k)) (buf ! (nat (c * 64) + 2 * k))
                 \<and> buf' ! (nat (c * 64) + 2 * k + 1)
                     = written (frame_sample (phase_increment s) s (Suc k)) (buf ! (nat (c * 64) + 2 * k + 1)))
              \<and> (pairs buf \<longrightarrow> pairs buf'))"
  proof
    assume h: "0 \<le> c \<and> nat (c * 64 + 64) \<le> length buf"
    then have c: "0 \<le> c" and fit: "nat (c * 64 + 64) \<le> length buf" by simp_all
    from write_samples_chunk [OF assms(1,3) c fit] obtain buf' where
      w: "write_samples (Some buf) (c * 64) (c * 64 + 64) 64 s
            = Inr ((advance_phase (phase_increment s) ^^ 32) s, Some buf')"
      and r: "length buf' = length buf"
        "\<forall>j. j < nat (c * 64) \<or> nat (c * 64 + 64) \<le> j \<longrightarrow> buf' ! j = buf ! j"
        "pairs buf \<longrightarrow> pairs buf'"
      by blast
    have "\<forall>k<32.
        buf' ! (nat (c * 64) + 2 * k)
          = written (frame_sample (phase_increment s) s (Suc k)) (buf ! (nat (c * 64) + 2 * k))
      \<and> buf' ! (nat (c * 64) + 2 * k + 1)
          = written (frame_sample (phase_increment s) s (Suc k)) (buf ! (nat (c * 64) + 2 * k + 1))"
      using write_samples_chunk_samples [OF assms(1,3) c fit w] by blast
    with w r show "\<exists>buf'. write_samples (Some buf) (c * 64) (c * 64 + 64) 64 s
                = Inr ((advance_phase (phase_increment s) ^^ 32) s, Some buf')
              \<and> length buf' = length buf
              \<and> (\<forall>j. j < nat (c * 64) \<or> nat (c * 64 + 64) \<le> j \<longrightarrow> buf' ! j = buf ! j)
              \<and> (\<forall>k<32.
                   buf' ! (nat (c * 64) + 2 * k)
                     = written (frame_sample (phase_increment s) s (Suc k)) (buf ! (nat (c * 64) + 2 * k))
                 \<and> buf' ! (nat (c * 64) + 2 * k + 1)
                     = written (frame_sample (phase_increment s) s (Suc k)) (buf ! (nat (c * 64) + 2 * k + 1)))
              \<and> (pairs buf \<longrightarrow> pairs buf')"
      by blast
  qed
  have B: "0 \<le> L \<and> length byte_stream = nat (L div 2) \<longrightarrow>
           audio_callback byte_stream L s
             = chunk_loop 64 (L div 2 div 64) 0 (s, Some (replicate (length byte_stream) 0))"
    using assms(2) by (simp add: audio_callback_def Let_def sdiv_nonneg)
  have C: "0 \<le> L \<and> length byte_stream = nat (L div 2) \<longrightarrow>
           (\<exists>out. audio_callback byte_stream L s
                = Inr ((advance_phase (phase_increment s) ^^ (32 * nat (L div 2 div 64))) s, Some out)
              \<and> length out = length byte_stream
              \<and> (\<forall>f < 32 * nat (L div 2 div 64).
                   out ! (2 * f) = written (frame_sample (phase_increment s) s (Suc f)) 0
                 \<and> out ! (2 * f + 1) = written (frame_sample (phase_increment s) s (Suc f)) 0)
              \<and> (\<forall>j. 64 * nat (L div 2 div 64) \<le> j \<and> j < length out \<longrightarrow> out ! j = 0)
              \<and> pairs out)"
  proof
    assume h: "0 \<le> L \<and> length byte_stream = nat (L div 2)"
    then have L: "0 \<le> L" and bl: "length byte_stream = nat (L div 2)" by simp_all
    from audio_callback_ok [OF L bl assms(3,1,2)] obtain out where
      a: "audio_callback byte_stream L s
            = Inr ((advance_phase (phase_increment s) ^^ (32 * nat (L div 2 div 64))) s, Some out)"
      and r: "length out = length byte_stream"
        "\<forall>j. 64 * nat (L div 2 div 64) \<le> j \<and> j < length out \<longrightarrow> out ! j = 0"
        "pairs out"
      by blast
    have "\<forall>f < 32 * nat (L div 2 div 64).
        out ! (2 * f) = written (frame_sample (phase_increment s) s (Suc f)) 0
      \<and> out ! (2 * f + 1) = written (frame_sample (phase_increment s) s (Suc f)) 0"
      using audio_callback_samples [OF L bl assms(3,1,2) a] by blast
    with a r show "\<exists>out. audio_callback byte_stream L s
                = Inr ((advance_phase (phase_increment s) ^^ (32 * nat (L div 2 div 64))) s, Some out)
              \<and> length out = length byte_stream
              \<and> (\<forall>f < 32 * nat (L div 2 div 64).
                   out ! (2 * f) = written (frame_sample (phase_increment s) s (Suc f)) 0
                 \<and> out ! (2 * f + 1) = written (frame_sample (phase_increment s) s (Suc f)) 0)
              \<and> (\<forall>j. 64 * nat (L div 2 div 64) \<le> j \<and> j < length out \<longrightarrow> out ! j = 0)
              \<and> pairs out"
      by blast
  qed
  from A B C show ?thesis by blast
qed

text \<open>
  C6, as stated, fails on the chunk size: one call of the per-chunk fill, over slots
  \<open>[0, 64)\<close>, leaves the oscillator at the table index of frame 32 (326 at note 57), not of
  frame 64 (653); and a callback on a 128-byte buffer, which holds 32 frames, runs one
  full chunk.
\<close>

theorem C6_counterexample:
  "\<not> isl (write_samples (Some (replicate 64 0)) 0 64 64 (init_state\<lparr>note := 57\<rparr>))
   \<and> phase_int (fst (projr (write_samples (Some (replicate 64 0)) 0 64 64 (init_state\<lparr>note := 57\<rparr>))))
       = frame_index (phase_increment (init_state\<lparr>note := 57\<rparr>)) (init_state\<lparr>note := 57\<rparr>) 32
   \<and> frame_index (phase_increment (init_state\<lparr>note := 57\<rparr>)) (init_state\<lparr>note := 57\<rparr>) 32 = 326
   \<and> frame_index (phase_increment (init_state\<lparr>note := 57\<rparr>)) (init_state\<lparr>note := 57\<rparr>) 64 = 653
   \<and> \<not> isl (audio_callback (replicate 64 0) 128 (init_state\<lparr>note := 57\<rparr>))
   \<and> phase_int (fst (projr (audio_callback (replicate 64 0) 128 (init_state\<lparr>note := 57\<rparr>)))) = 326"
proof -
  let ?s = "init_state\<lparr>note := 57\<rparr>"
  let ?inc = "phase_increment ?s"
  let ?d = "2875767925323201 / 281474976710656 :: real"
  have pos: "0 < note ?s" by simp
  have tab: "length (sine_wave_table ?s) = nat (table_length ?s)"
    using init_state_table by simp
  have run: "\<not> quit ?s" by (simp add: init_state_def)
  have s: "table_length ?s = 1024" "phase_double ?s = 0" by (simp_all add: init_state_def)
  from write_samples_chunk [OF pos tab, of 0 "replicate 64 0"]
  obtain buf' where w: "write_samples (Some (replicate 64 0)) 0 64 64 ?s
      = Inr ((advance_phase ?inc ^^ 32) ?s, Some buf')" by auto
  from audio_callback_ok [OF _ _ tab pos run, of 128 "replicate 64 0"]
  obtain out where a: "audio_callback (replicate 64 0) 128 ?s
      = Inr ((advance_phase ?inc ^^ 32) ?s, Some out)" by auto
  have "int_of_double ((wrap_step ?d 1024 ^^ 31) (wrap_step ?d 1024 0)) = 326"
    by (simp add: funpow_numeral double_eval)
  then have f32: "frame_index ?inc ?s 32 = 326"
    using frame_index_Suc [of ?inc ?s 31] by (simp add: phase_increment_57 s)
  have "int_of_double ((wrap_step ?d 1024 ^^ 63) (wrap_step ?d 1024 0)) = 653"
    by (simp add: funpow_numeral double_eval)
  then have f64: "frame_index ?inc ?s 64 = 653"
    using frame_index_Suc [of ?inc ?s 63] by (simp add: phase_increment_57 s)
  have p: "phase_int ((advance_phase ?inc ^^ 32) ?s) = frame_index ?inc ?s 32"
    by (simp only: frame_index_def)
  show ?thesis using w a f32 f64 p by simp
qed

theorem C6_chunked_fill_witness:
  "0 < note init_state \<and> \<not> quit init_state
   \<and> length (sine_wave_table init_state) = nat (table_length init_state)
   \<and> (0::int) \<le> 1 \<and> nat (1 * 64 + 64) \<le> length (replicate 128 (0::16 word))
   \<and> (\<exists>buf'. write_samples (Some (replicate 128 0)) (1 * 64) (1 * 64 + 64) 64 init_state
          = Inr ((advance_phase (phase_increment init_state) ^^ 32) init_state, Some buf')
        \<and> length buf' = length (replicate 128 (0::16 word))
        \<and> buf' ! (nat (1 * 64) + 2 * 5)
            = written (frame_sample (phase_increment init_state) init_state (Suc 5))
                (replicate 128 0 ! (nat (1 * 64) + 2 * 5))
        \<and> buf' ! (nat (1 * 64) + 2 * 5 + 1)
            = written (frame_sample (phase_increment init_state) init_state (Suc 5))
                (replicate 128 0 ! (nat (1 * 64) + 2 * 5 + 1)))
   \<and> (0::int) \<le> 256 \<and> length (replicate 128 (7::16 word)) = nat (256 div 2)
   \<and> audio_callback (replicate 128 7) 256 init_state
        = chunk_loop 64 (256 div 2 div 64) 0 (init_state, Some (replicate (length (replicate 128 (7::16 word))) 0))
   \<and> (\<exists>out. audio_callback (replicate 128 7) 256 init_state
          = Inr ((advance_phase (phase_increment init_state) ^^ (32 * nat (256 div 2 div 64))) init_state, Some out)
        \<and> length out = length (replicate 128 (7::16 word))
        \<and> out ! (2 * 40) = written (frame_sample (phase_increment init_state) init_state (Suc 40)) 0
        \<and> out ! (2 * 40 + 1) = written (frame_sample (phase_increment init_state) init_state (Suc 40)) 0
        \<and> pairs out)"
proof -
  have h: "0 < note init_state" "\<not> quit init_state" by (simp_all add: init_state_def)
  have c1: "(0::int) \<le> 1 \<and> nat (1 * 64 + 64) \<le> length (replicate 128 (0::16 word))" by simp
  have c2: "(0::int) \<le> 256 \<and> length (replicate 128 (7::16 word)) = nat (256 div 2)" by simp
  have k: "(5::nat) < 32" "(40::nat) < 32 * nat (256 div 2 div 64)" by simp_all
  note t = C6_chunked_fill [OF h init_state_table, of 1 "replicate 128 0" 256 "replicate 128 7"]
  from t c1 obtain buf' where
    b: "write_samples (Some (replicate 128 0)) (1 * 64) (1 * 64 + 64) 64 init_state
          = Inr ((advance_phase (phase_increment init_state) ^^ 32) init_state, Some buf')"
      "length buf' = length (replicate 128 (0::16 word))"
      "\<forall>k<32.
         buf' ! (nat (1 * 64) + 2 * k)
           = written (frame_sample (phase_increment init_state) init_state (Suc k))
               (replicate 128 0 ! (nat (1 * 64) + 2 * k))
       \<and> buf' ! (nat (1 * 64) + 2 * k + 1)
           = written (frame_sample (phase_increment init_state) init_state (Suc k))
               (replicate 128 0 ! (nat (1 * 64) + 2 * k + 1))"
    by blast
  from t c2 obtain out where
    o: "audio_callback (replicate 128 7) 256 init_state
          = Inr ((advance_phase (phase_increment init_state) ^^ (32 * nat (256 div 2 div 64))) init_state, Some out)"
      "length out = length (replicate 128 (7::16 word))"
      "\<forall>f < 32 * nat (256 div 2 div 64).
         out ! (2 * f) = written (frame_sample (phase_increment init_state) init_state (Suc f)) 0
       \<and> out ! (2 * f + 1) = written (frame_sample (phase_increment init_state) init_state (Suc f)) 0"
      "pairs out"
    by blast
  from t c2 have e: "audio_callback (replicate 128 7) 256 init_state
        = chunk_loop 64 (256 div 2 div 64) 0 (init_state, Some (replicate (length (replicate 128 (7::16 word))) 0))"
    by blast
  from b(3) k(1) have b5: "buf' ! (nat (1 * 64) + 2 * 5)
            = written (frame_sample (phase_increment init_state) init_state (Suc 5))
                (replicate 128 0 ! (nat (1 * 64) + 2 * 5))
        \<and> buf' ! (nat (1 * 64) + 2 * 5 + 1)
            = written (frame_sample (phase_increment init_state) init_state (Suc 5))
                (replicate 128 0 ! (nat (1 * 64) + 2 * 5 + 1))"
    by blast
  from o(3) k(2) have o40: "out ! (2 * 40) = written (frame_sample (phase_increment init_state) init_state (Suc 40)) 0
        \<and> out ! (2 * 40 + 1) = written (frame_sample (phase_increment init_state) init_state (Suc 40)) 0"
    by blast
  show ?thesis using h init_state_table c1 c2 b(1,2) b5 o(1,2,4) o40 e by blast
qed

section \<open>Properties of the wavetable builder\<close>

lemma sine_loop_nth:
  "i < n \<Longrightarrow> sine_loop n inc ph ! i
     = word_of_int (int_of_double (dmul (c_sin (((\<lambda>p. dadd p inc) ^^ i) ph)) (double_of_int 32767)))"
proof (induction n inc ph arbitrary: i rule: sine_loop.induct)
  case (1 inc ph)
  then show ?case by simp
next
  case (2 n inc ph)
  show ?case
  proof (cases i)
    case 0
    then show ?thesis by simp
  next
    case (Suc j)
    then have "j < n" using "2.prems" by simp
    then show ?thesis using "2.IH" [of j] Suc by (simp del: funpow.simps add: funpow_Suc_right)
  qed
qed

lemma rd_int [simp]: "\<bar>i\<bar> < 2 ^ 53 \<Longrightarrow> rd (of_int i) = of_int i"
  by (rule is_double_rd [OF is_double_of_int])

lemma rd_32767 [simp]: "rd 32767 = 32767"
  using rd_int [of 32767] by simp

lemma c_sin_bounds: "- 1 \<le> c_sin x" "c_sin x \<le> 1"
proof -
  have "rd (- 1) \<le> rd (sin x)" by (rule rd_mono) simp
  then show "- 1 \<le> c_sin x" by (simp add: c_sin_def rd_neg)
  have "rd (sin x) \<le> rd 1" by (rule rd_mono) simp
  then show "c_sin x \<le> 1" by (simp add: c_sin_def)
qed

lemma sample_bounds:
  "- 32767 \<le> int_of_double (dmul (c_sin x) (double_of_int 32767))"
  "int_of_double (dmul (c_sin x) (double_of_int 32767)) \<le> 32767"
proof -
  let ?y = "dmul (c_sin x) (double_of_int 32767)"
  have d: "double_of_int 32767 = 32767" using double_of_int_eq [of 32767] by simp
  have "rd (- 32767) \<le> rd (c_sin x * 32767)" using c_sin_bounds(1) [of x] by (intro rd_mono) simp
  then have lo: "- 32767 \<le> ?y" by (simp add: dmul_def d rd_neg)
  have "rd (c_sin x * 32767) \<le> rd 32767" using c_sin_bounds(2) [of x] by (intro rd_mono) simp
  then have hi: "?y \<le> 32767" by (simp add: dmul_def d)
  show "- 32767 \<le> int_of_double ?y" using lo hi
    by (simp add: int_of_double_def; linarith?)
  show "int_of_double ?y \<le> 32767" using lo hi
    by (simp add: int_of_double_def; linarith?)
qed

lemma sint_sample:
  assumes "- 32767 \<le> v" "v \<le> 32767"
  shows "sint (word_of_int v :: 16 word) = v"
proof -
  have "signed_take_bit 15 v = v"
    using assms by (intro signed_take_bit_int_eq_self) simp_all
  then show ?thesis by (simp add: sint_sbintrunc')
qed

lemma pi_c_val: "pi_c = 884279719003555 / 281474976710656"
  unfolding pi_c_def by (simp add: double_eval)

lemma sum_below_23:
  "(\<Sum>m<23. f m) = f 0 + f 1 + f 2 + f 3 + f 4 + f 5 + f 6 + f 7 + f 8 + f 9 + f 10 + f 11 + f 12
     + f 13 + f 14 + f 15 + f 16 + f 17 + f 18 + f 19 + f 20 + f 21 + (f (22::nat) :: real)"
  by (simp add: eval_nat_numeral lessThan_Suc)

lemma sin_coeff_even: "even m \<Longrightarrow> sin_coeff m = 0"
  by (simp add: sin_coeff_def)

lemma sin_coeff_odd: "odd m \<Longrightarrow> sin_coeff m = (- 1) ^ ((m - 1) div 2) / fact m"
  by (simp add: sin_coeff_def)

lemma sin_poly_23:
  "(\<Sum>m<23. sin_coeff m * x ^ m)
     = x - x ^ 3 / fact 3 + x ^ 5 / fact 5 - x ^ 7 / fact 7 + x ^ 9 / fact 9 - x ^ 11 / fact 11
       + x ^ 13 / fact 13 - x ^ 15 / fact 15 + x ^ 17 / fact 17 - x ^ 19 / fact 19
       + x ^ 21 / fact 21"
  unfolding sum_below_23 by (simp add: sin_coeff_even sin_coeff_odd)

subsection \<open>The constant for pi\<close>

text \<open>
  The double \<open>pi_c\<close> of the source is within \<open>2^-52\<close> of \<open>pi\<close>: the cosine of its half,
  from the Taylor polynomial of the sine at a quarter of it, is below \<open>6.2 * 10^-17\<close>.
\<close>

lemma sin_eighth_turn:
  "7071067811865475027518 / 10 ^ 22 \<le> sin (884279719003555 / 1125899906842624 :: real)
   \<and> sin (884279719003555 / 1125899906842624 :: real) \<le> 7071067811865475027521 / 10 ^ 22"
proof -
  let ?x = "884279719003555 / 1125899906842624 :: real"
  let ?p = "?x - ?x ^ 3 / fact 3 + ?x ^ 5 / fact 5 - ?x ^ 7 / fact 7 + ?x ^ 9 / fact 9 - ?x ^ 11 / fact 11
       + ?x ^ 13 / fact 13 - ?x ^ 15 / fact 15 + ?x ^ 17 / fact 17 - ?x ^ 19 / fact 19
       + ?x ^ 21 / fact 21"
  have b: "\<bar>sin ?x - ?p\<bar> \<le> inverse (fact 23) * \<bar>?x\<bar> ^ 23"
    using Maclaurin_sin_bound [of ?x 23] unfolding sin_poly_23 .
  have r: "inverse (fact 23) * \<bar>?x\<bar> ^ 23 \<le> 1 / 10 ^ 23"
    by (simp add: fact_numeral power_divide)
  have lo: "7071067811865475027518 / 10 ^ 22 + 1 / 10 ^ 23 \<le> ?p"
    by (simp add: fact_numeral power_divide)
  have hi: "?p \<le> 7071067811865475027521 / 10 ^ 22 - 1 / 10 ^ 23"
    by (simp add: fact_numeral power_divide)
  from b r lo hi show ?thesis by linarith
qed

lemma cos_half_pi_c: "\<bar>cos (pi_c / 2)\<bar> \<le> 62 / 10 ^ 18"
proof -
  let ?x = "884279719003555 / 1125899906842624 :: real"
  let ?a = "7071067811865475027518 / 10 ^ 22 :: real"
  let ?b = "7071067811865475027521 / 10 ^ 22 :: real"
  have x: "pi_c / 2 = 2 * ?x" by (simp add: pi_c_val)
  have c: "cos (pi_c / 2) = 1 - 2 * (sin ?x)\<^sup>2" unfolding x by (rule cos_double_sin)
  have a: "?a \<le> sin ?x" and b: "sin ?x \<le> ?b" using sin_eighth_turn by simp_all
  have "?a\<^sup>2 \<le> (sin ?x)\<^sup>2" using a by (intro power_mono) simp_all
  moreover have "(sin ?x)\<^sup>2 \<le> ?b\<^sup>2"
  proof -
    have "0 \<le> ?a" by simp
    then have "0 \<le> sin ?x" using a by linarith
    then show ?thesis using b by (intro power_mono) simp_all
  qed
  moreover have "1 - 2 * ?a\<^sup>2 \<le> (62 / 10 ^ 18 :: real)" by (simp add: power2_eq_square)
  moreover have "- (62 / 10 ^ 18 :: real) \<le> 1 - 2 * ?b\<^sup>2" by (simp add: power2_eq_square)
  ultimately show ?thesis unfolding c abs_le_iff by linarith
qed

lemma sin_cubic: "\<bar>sin x - x\<bar> \<le> \<bar>x\<bar> ^ 3 / 6" for x :: real
proof -
  have "(\<Sum>m<3. sin_coeff m * x ^ m) = x"
    by (simp add: eval_nat_numeral lessThan_Suc sin_coeff_def)
  then show ?thesis using Maclaurin_sin_bound [of x 3] by (simp add: fact_numeral)
qed

lemma abs_near:
  fixes s t :: real
  assumes "\<bar>s - t\<bar> \<le> \<bar>t\<bar> / 6"
  shows "5 / 6 * \<bar>t\<bar> \<le> \<bar>s\<bar>"
  using assms by linarith

lemma scale_near:
  fixes a b c :: real
  assumes "5 / 6 * a \<le> b" "b \<le> c"
  shows "2 * a \<le> 12 / 5 * c"
  using assms by linarith

lemma pi_c_error: "\<bar>pi - pi_c\<bar> \<le> 1 / 2 ^ 52"
proof -
  let ?t = "pi / 2 - pi_c / 2"
  have s: "sin ?t = cos (pi_c / 2)" by (simp add: cos_sin_eq [of "pi_c / 2"])
  have "2 \<le> pi" "pi < 4" using pi_ge_two pi_less_4 by simp_all
  then have t1: "\<bar>?t\<bar> \<le> 1" unfolding pi_c_val by (simp add: abs_le_iff)
  then have "\<bar>?t\<bar> ^ 3 \<le> \<bar>?t\<bar> * 1"
    unfolding power3_eq_cube
    by (metis abs_ge_zero mult.assoc mult_left_mono mult_le_one mult_1_right)
  then have "\<bar>sin ?t - ?t\<bar> \<le> \<bar>?t\<bar> / 6" using sin_cubic [of ?t] by simp
  then have "5 / 6 * \<bar>?t\<bar> \<le> \<bar>sin ?t\<bar>" by (rule abs_near)
  then have "2 * \<bar>?t\<bar> \<le> 12 / 5 * (62 / 10 ^ 18)"
    unfolding s using cos_half_pi_c by (rule scale_near)
  moreover have "pi - pi_c = 2 * ?t" by (simp add: field_simps)
  then have "\<bar>pi - pi_c\<bar> = 2 * \<bar>?t\<bar>" by (simp only: abs_mult)
  moreover have "12 / 5 * (62 / 10 ^ 18) \<le> (1 / 2 ^ 52 :: real)" by simp
  ultimately show ?thesis by (simp only:)
qed

subsection \<open>The accumulated phase and the error of an entry\<close>

lemma rd_abs_error: "\<bar>rd x - x\<bar> \<le> \<bar>x\<bar> / 2 ^ 53"
proof -
  consider "0 < x" | "x = 0" | "x < 0" by linarith
  then show ?thesis
  proof cases
    case 1 then show ?thesis using rd_rel_error [of x] by simp
  next
    case 2 then show ?thesis by simp
  next
    case 3
    then have "\<bar>rd (- x) - (- x)\<bar> \<le> (- x) / 2 ^ 53" by (intro rd_rel_error) simp
    then show ?thesis using 3 by (simp add: rd_neg abs_if split: if_splits)
  qed
qed

lemma sin_lipschitz: "\<bar>sin a - sin b\<bar> \<le> \<bar>a - b\<bar>" for a b :: real
proof -
  have "\<bar>sin a - sin b\<bar> = 2 * \<bar>sin ((a - b) / 2)\<bar> * \<bar>cos ((a + b) / 2)\<bar>"
    by (simp add: sin_diff_sin abs_mult)
  also have "\<dots> \<le> 2 * \<bar>(a - b) / 2\<bar> * 1"
    by (intro mult_mono mult_left_mono abs_sin_x_le_abs_x) simp_all
  finally show ?thesis by simp
qed

lemma pi_le: "pi \<le> 32 / 10" and pi_c_le: "pi_c \<le> 32 / 10" and pi_c_pos: "0 < pi_c"
proof -
  show c: "pi_c \<le> 32 / 10" by (simp add: pi_c_val)
  show "0 < pi_c" by (simp add: pi_c_val)
  have "(1 / 2 ^ 52 :: real) \<le> 1 / 100" by simp
  moreover have "pi_c \<le> 314 / 100 + 1 / 100" by (simp add: pi_c_val)
  ultimately show "pi \<le> 32 / 10" using pi_c_error by linarith
qed

lemma table_inc:
  assumes "0 < N" "N < 2 ^ 31"
  shows "ddiv (dmul 2 pi_c) (double_of_int N) = rd (2 * pi_c / of_int N)"
proof -
  have "is_double pi_c" unfolding pi_c_def by simp
  then have "rd (2 * pi_c) = 2 * pi_c" by (intro is_double_rd is_double_twice)
  moreover have "double_of_int N = of_int N" using assms by (intro double_of_int_eq) simp
  ultimately show ?thesis by (simp add: ddiv_def dmul_def)
qed

lemma scaled_diff:
  fixes c p n e :: real
  assumes "0 < n" "\<bar>p - c\<bar> \<le> e"
  shows "\<bar>2 * c / n - 2 * p / n\<bar> \<le> 2 * e / n"
proof -
  have "2 * c / n - 2 * p / n = (2 / n) * (c - p)" by (simp add: algebra_simps diff_divide_distrib)
  then have "\<bar>2 * c / n - 2 * p / n\<bar> = (2 / n) * \<bar>p - c\<bar>"
    using assms(1) by (simp only: abs_mult abs_minus_commute [of c p]) simp
  also have "\<dots> \<le> (2 / n) * e" using assms by (intro mult_left_mono) simp_all
  finally show ?thesis by simp
qed

lemma table_inc_bounds:
  assumes "0 < N" "N < 2 ^ 31"
  defines "inc \<equiv> ddiv (dmul 2 pi_c) (double_of_int N)"
  shows "0 < inc"
    and "\<bar>inc - 2 * pi / of_int N\<bar> \<le> 1 / (2 ^ 49 * of_int N)"
    and "of_int N * inc \<le> 13 / 2"
proof -
  let ?n = "of_int N :: real"
  let ?y = "2 * pi_c / ?n"
  have n: "0 < ?n" using assms(1) by simp
  have y: "0 < ?y" using n pi_c_pos by simp
  have i: "inc = rd ?y" unfolding inc_def using assms(1,2) by (rule table_inc)
  show p: "0 < inc" unfolding i using y by (rule rd_pos)
  have "?y \<le> 7 / ?n" using pi_c_le n by (simp add: field_simps)
  then have "?y / 2 ^ 53 \<le> 7 / ?n / 2 ^ 53" by (rule divide_right_mono) simp
  then have a: "\<bar>inc - ?y\<bar> \<le> 7 / ?n / 2 ^ 53" unfolding i using rd_rel_error [OF y] by linarith
  have "\<bar>?y - 2 * pi / ?n\<bar> \<le> 2 * (1 / 2 ^ 52) / ?n"
    using n pi_c_error by (rule scaled_diff)
  then have b: "\<bar>?y - 2 * pi / ?n\<bar> \<le> 4 / ?n / 2 ^ 53" by simp
  have "\<bar>inc - 2 * pi / ?n\<bar> \<le> \<bar>inc - ?y\<bar> + \<bar>?y - 2 * pi / ?n\<bar>" by linarith
  also have "\<dots> \<le> 7 / ?n / 2 ^ 53 + 4 / ?n / 2 ^ 53" using a b by linarith
  also have "\<dots> = 11 / 16 * (1 / (2 ^ 49 * ?n))" by simp
  also have "\<dots> \<le> 1 * (1 / (2 ^ 49 * ?n))" using n by (intro mult_right_mono) simp_all
  finally show e: "\<bar>inc - 2 * pi / ?n\<bar> \<le> 1 / (2 ^ 49 * ?n)" by simp
  have "inc \<le> 2 * pi / ?n + 1 / (2 ^ 49 * ?n)" using e by linarith
  then have "?n * inc \<le> ?n * (2 * pi / ?n + 1 / (2 ^ 49 * ?n))"
    using n by (intro mult_left_mono) simp_all
  also have "\<dots> = 2 * pi + 1 / 2 ^ 49" using n by (simp add: field_simps)
  also have "\<dots> \<le> 13 / 2" using pi_le by simp
  finally show "?n * inc \<le> 13 / 2" .
qed

lemma phase_acc:
  assumes "0 < N" "N < 2 ^ 31" "i \<le> nat N"
  defines "inc \<equiv> ddiv (dmul 2 pi_c) (double_of_int N)"
  shows "0 \<le> ((\<lambda>p. dadd p inc) ^^ i) 0
       \<and> \<bar>((\<lambda>p. dadd p inc) ^^ i) 0 - of_nat i * inc\<bar> \<le> of_nat i / 2 ^ 50"
  using assms(3)
proof (induction i)
  case 0
  then show ?case by simp
next
  case (Suc i)
  let ?f = "((\<lambda>p. dadd p inc) ^^ i) 0"
  let ?n = "of_int N :: real"
  note b = table_inc_bounds [OF assms(1,2), folded inc_def]
  have i: "i \<le> nat N" and si: "Suc i \<le> nat N" using Suc.prems by simp_all
  have ih: "0 \<le> ?f" "\<bar>?f - of_nat i * inc\<bar> \<le> of_nat i / 2 ^ 50" using Suc.IH [OF i] by simp_all
  have step: "((\<lambda>p. dadd p inc) ^^ Suc i) 0 = rd (?f + inc)" by (simp add: dadd_def)
  have s0: "0 \<le> ?f + inc" using ih(1) b(1) by linarith
  have "real (Suc i) \<le> ?n" using si assms(1) by linarith
  then have "real (Suc i) * inc \<le> ?n * inc" using b(1) by (intro mult_right_mono) simp_all
  then have m: "real (Suc i) * inc \<le> 13 / 2" using b(3) by linarith
  have "N < 2147483648" using assms(2) by simp
  then have "int i \<le> 2147483648" using i by linarith
  then have "int i \<le> 2 ^ 31" by simp
  then have "real_of_int (int i) \<le> real_of_int (2 ^ 31)" by (simp only: of_int_le_iff)
  then have "real i \<le> 2 ^ 31" by simp
  then have "real i / 2 ^ 50 \<le> 2 ^ 31 / 2 ^ 50" by (rule divide_right_mono) simp
  then have sm: "real i / 2 ^ 50 \<le> 1" by simp
  have e: "real (Suc i) * inc = real i * inc + inc" by (simp add: algebra_simps)
  have "?f + inc \<le> real (Suc i) * inc + real i / 2 ^ 50" using ih(2) unfolding e by linarith
  then have s8: "?f + inc \<le> 8" using m sm by linarith
  have "\<bar>rd (?f + inc) - (?f + inc)\<bar> \<le> \<bar>?f + inc\<bar> / 2 ^ 53" by (rule rd_abs_error)
  also have "\<dots> \<le> 8 / 2 ^ 53" using s0 s8 by (intro divide_right_mono) simp_all
  finally have r: "\<bar>rd (?f + inc) - (?f + inc)\<bar> \<le> 1 / 2 ^ 50" by simp
  have "\<bar>rd (?f + inc) - real (Suc i) * inc\<bar> \<le> 1 / 2 ^ 50 + real i / 2 ^ 50"
    using r ih(2) unfolding e by linarith
  also have "\<dots> = real (Suc i) / 2 ^ 50" by (simp add: field_simps)
  finally have "\<bar>rd (?f + inc) - real (Suc i) * inc\<bar> \<le> real (Suc i) / 2 ^ 50" .
  moreover have "0 \<le> rd (?f + inc)" using s0 by (rule rd_nonneg)
  ultimately show ?case unfolding step by simp
qed

lemma phase_error:
  assumes "0 < N" "N < 2 ^ 31" "i \<le> nat N"
  shows "\<bar>((\<lambda>p. dadd p (ddiv (dmul 2 pi_c) (double_of_int N))) ^^ i) 0
            - 2 * pi * of_nat i / of_int N\<bar> \<le> (of_nat i + 2) / 2 ^ 50"
proof -
  let ?inc = "ddiv (dmul 2 pi_c) (double_of_int N)"
  let ?f = "((\<lambda>p. dadd p ?inc) ^^ i) 0"
  let ?n = "of_int N :: real"
  note b = table_inc_bounds [OF assms(1,2)]
  have n: "0 < ?n" using assms(1) by simp
  have a: "\<bar>?f - of_nat i * ?inc\<bar> \<le> of_nat i / 2 ^ 50"
    using phase_acc [OF assms] by simp
  have "real i * ?inc - 2 * pi * real i / ?n = real i * (?inc - 2 * pi / ?n)"
    by (simp add: algebra_simps)
  then have "\<bar>real i * ?inc - 2 * pi * real i / ?n\<bar> = real i * \<bar>?inc - 2 * pi / ?n\<bar>"
    by (simp only: abs_mult abs_of_nat abs_numeral)
  also have "\<dots> \<le> real i * (1 / (2 ^ 49 * ?n))"
    using b(2) by (intro mult_left_mono) simp_all
  also have "\<dots> = (real i / ?n) * (1 / 2 ^ 49)" by simp
  also have "\<dots> \<le> 1 * (1 / 2 ^ 49)"
  proof -
    have "real i \<le> ?n" using assms(1,3) by linarith
    then have "real i / ?n \<le> 1" using n by simp
    then show ?thesis by (intro mult_right_mono) simp_all
  qed
  finally have c: "\<bar>real i * ?inc - 2 * pi * real i / ?n\<bar> \<le> 2 / 2 ^ 50" by simp
  have "\<bar>?f - 2 * pi * real i / ?n\<bar> \<le> real i / 2 ^ 50 + 2 / 2 ^ 50" using a c by linarith
  then show ?thesis by (simp add: add_divide_distrib)
qed

lemma sample_error:
  assumes "\<bar>ph - th\<bar> \<le> d"
  shows "\<bar>dmul (c_sin ph) (double_of_int 32767) - sin th * 32767\<bar> \<le> 32767 * (d + 1 / 2 ^ 52)"
proof -
  let ?c = "c_sin ph"
  have d: "double_of_int 32767 = 32767" using double_of_int_eq [of 32767] by simp
  have c1: "\<bar>?c\<bar> \<le> 1" using c_sin_bounds [of ph] by linarith
  have "\<bar>?c - sin ph\<bar> \<le> \<bar>sin ph\<bar> / 2 ^ 53" unfolding c_sin_def by (rule rd_abs_error)
  also have "\<dots> \<le> 1 / 2 ^ 53" by (intro divide_right_mono) simp_all
  finally have a: "\<bar>?c - sin ph\<bar> \<le> 1 / 2 ^ 53" .
  have b: "\<bar>sin ph - sin th\<bar> \<le> d" using sin_lipschitz [of ph th] assms by linarith
  have "\<bar>rd (?c * 32767) - ?c * 32767\<bar> \<le> \<bar>?c * 32767\<bar> / 2 ^ 53" by (rule rd_abs_error)
  also have "\<bar>?c * 32767\<bar> = \<bar>?c\<bar> * 32767" by (simp add: abs_mult)
  also have "\<bar>?c\<bar> * 32767 / 2 ^ 53 \<le> 1 * 32767 / 2 ^ 53"
    using c1 by (intro divide_right_mono mult_right_mono) simp_all
  finally have m: "\<bar>rd (?c * 32767) - ?c * 32767\<bar> \<le> 32767 / 2 ^ 53" by simp
  have "\<bar>?c - sin th\<bar> \<le> 1 / 2 ^ 53 + d" using a b by linarith
  then have "32767 * \<bar>?c - sin th\<bar> \<le> 32767 * (1 / 2 ^ 53 + d)" by simp
  moreover have "\<bar>?c * 32767 - sin th * 32767\<bar> = 32767 * \<bar>?c - sin th\<bar>"
  proof -
    have "?c * 32767 - sin th * 32767 = 32767 * (?c - sin th)" by simp
    then show ?thesis by (simp only: abs_mult abs_of_nat abs_numeral)
  qed
  ultimately have "\<bar>rd (?c * 32767) - sin th * 32767\<bar> \<le> 32767 / 2 ^ 53 + 32767 * (1 / 2 ^ 53 + d)"
    using m by linarith
  also have "\<dots> = 32767 * (d + 1 / 2 ^ 52)" by simp
  finally show ?thesis by (simp add: dmul_def d)
qed

lemma table_entry:
  assumes "0 < N" "i < nat N"
  shows "sint (build_sine_table N ! i)
     = int_of_double (dmul (c_sin (((\<lambda>p. dadd p (ddiv (dmul 2 pi_c) (double_of_int N))) ^^ i) 0))
                        (double_of_int 32767))"
proof -
  let ?inc = "ddiv (dmul 2 pi_c) (double_of_int N)"
  let ?v = "int_of_double (dmul (c_sin (((\<lambda>p. dadd p ?inc) ^^ i) 0)) (double_of_int 32767))"
  have "build_sine_table N ! i = word_of_int ?v"
    using sine_loop_nth [OF assms(2), of ?inc 0] by (simp add: build_sine_table_def)
  moreover have "- 32767 \<le> ?v" "?v \<le> 32767" by (rule sample_bounds)+
  ultimately show ?thesis using sint_sample [of ?v] by simp
qed

lemma table_error:
  assumes "0 < N" "N < 2 ^ 31" "i < nat N"
  shows "\<bar>dmul (c_sin (((\<lambda>p. dadd p (ddiv (dmul 2 pi_c) (double_of_int N))) ^^ i) 0))
                        (double_of_int 32767)
          - sin (2 * pi * of_nat i / of_int N) * 32767\<bar> \<le> (of_nat i + 3) / 2 ^ 35"
proof -
  have i: "i \<le> nat N" using assms(3) by simp
  note e = sample_error [OF phase_error [OF assms(1,2) i]]
  have "32767 * ((real i + 2) / 2 ^ 50 + 1 / 2 ^ 52) \<le> 32768 * ((real i + 3) / 2 ^ 50)"
    by (simp add: field_simps)
  also have "\<dots> = (real i + 3) / 2 ^ 35" by simp
  finally show ?thesis using e by linarith
qed

subsection \<open>Peak and trough\<close>

lemma cos_lower: "1 - t\<^sup>2 / 2 \<le> cos t" for t :: real
proof -
  have "cos t = 1 - 2 * (sin (t / 2))\<^sup>2" using cos_double_sin [of "t / 2"] by simp
  moreover have "(sin (t / 2))\<^sup>2 \<le> (t / 2)\<^sup>2"
    using abs_sin_x_le_abs_x [of "t / 2"] by (simp only: abs_le_square_iff)
  moreover have "(t / 2)\<^sup>2 = t\<^sup>2 / 4" by (simp add: power_divide)
  ultimately show ?thesis by linarith
qed

lemma rd_near_one:
  assumes "1 - 1 / 2 ^ 54 \<le> x" "x \<le> 1"
  shows "rd x = 1"
proof -
  have a: "rd (1 - 1 / 2 ^ 54) = 1" by (simp add: double_eval)
  have "rd (1 - 1 / 2 ^ 54) \<le> rd x" using assms(1) by (rule rd_mono)
  moreover have "rd x \<le> rd 1" using assms(2) by (rule rd_mono)
  ultimately show ?thesis using a by simp
qed

lemma square_small:
  fixes t d :: real
  assumes "\<bar>t\<bar> \<le> d" "d\<^sup>2 \<le> 1 / 2 ^ 53"
  shows "t\<^sup>2 / 2 \<le> 1 / 2 ^ 54"
proof -
  have "0 \<le> d" using assms(1) by linarith
  then have "\<bar>t\<bar> \<le> \<bar>d\<bar>" using assms(1) by simp
  then have "t\<^sup>2 \<le> d\<^sup>2" by (simp only: abs_le_square_iff)
  then show ?thesis using assms(2) by simp
qed

lemma table_peak:
  assumes "0 < k" "k \<le> 2 ^ 23"
  shows "sint (build_sine_table (4 * k) ! nat k) = 32767"
proof -
  let ?N = "4 * k"
  let ?inc = "ddiv (dmul 2 pi_c) (double_of_int ?N)"
  let ?f = "((\<lambda>p. dadd p ?inc) ^^ nat k) 0"
  have N: "0 < ?N" "?N < 2 ^ 31" using assms by simp_all
  have i: "nat k \<le> nat ?N" "nat k < nat ?N" using assms(1) by simp_all
  have th: "2 * pi * of_nat (nat k) / of_int ?N = pi / 2" using assms(1) by simp
  have e: "\<bar>?f - pi / 2\<bar> \<le> (of_nat (nat k) + 2) / 2 ^ 50"
    using phase_error [OF N i(1)] unfolding th .
  have "real (nat k) + 2 \<le> 2 ^ 23 + 2"
  proof -
    have "real_of_int k \<le> real_of_int (2 ^ 23)" using assms(2) by (simp only: of_int_le_iff)
    then show ?thesis using assms(1) by simp
  qed
  then have "(real (nat k) + 2) / 2 ^ 50 \<le> (2 ^ 23 + 2) / 2 ^ 50" by (rule divide_right_mono) simp
  then have d: "\<bar>pi / 2 - ?f\<bar> \<le> (2 ^ 23 + 2) / 2 ^ 50" using e by linarith
  have "((2 ^ 23 + 2) / 2 ^ 50 :: real)\<^sup>2 \<le> 1 / 2 ^ 53" by (simp add: power_divide)
  with d have "(pi / 2 - ?f)\<^sup>2 / 2 \<le> 1 / 2 ^ 54" by (rule square_small)
  then have "1 - 1 / 2 ^ 54 \<le> cos (pi / 2 - ?f)" using cos_lower [of "pi / 2 - ?f"] by linarith
  moreover have "cos (pi / 2 - ?f) = sin ?f" by (simp add: cos_diff)
  ultimately have "1 - 1 / 2 ^ 54 \<le> sin ?f" by simp
  then have c: "c_sin ?f = 1" unfolding c_sin_def by (rule rd_near_one) simp
  have d: "double_of_int 32767 = 32767" using double_of_int_eq [of 32767] by simp
  have "dmul (c_sin ?f) (double_of_int 32767) = dmul 1 (double_of_int 32767)" by (simp only: c)
  also have "\<dots> = 32767" by (simp add: dmul_def d)
  finally have "dmul (c_sin ?f) (double_of_int 32767) = 32767" .
  then have "int_of_double (dmul (c_sin ?f) (double_of_int 32767)) = 32767"
    by (simp only:) (simp add: int_of_double_def)
  then show ?thesis using table_entry [OF N(1) i(2)] by simp
qed

lemma table_trough:
  assumes "0 < k" "k \<le> 2 ^ 21"
  shows "sint (build_sine_table (4 * k) ! nat (3 * k)) = - 32767"
proof -
  let ?N = "4 * k"
  let ?inc = "ddiv (dmul 2 pi_c) (double_of_int ?N)"
  let ?f = "((\<lambda>p. dadd p ?inc) ^^ nat (3 * k)) 0"
  have N: "0 < ?N" "?N < 2 ^ 31" using assms by simp_all
  have i: "nat (3 * k) \<le> nat ?N" "nat (3 * k) < nat ?N" using assms(1) by simp_all
  have th: "2 * pi * of_nat (nat (3 * k)) / of_int ?N = 3 * pi / 2" using assms(1) by simp
  have e: "\<bar>?f - 3 * pi / 2\<bar> \<le> (of_nat (nat (3 * k)) + 2) / 2 ^ 50"
    using phase_error [OF N i(1)] unfolding th .
  have "real (nat (3 * k)) + 2 \<le> 3 * 2 ^ 21 + 2"
  proof -
    have "real_of_int k \<le> real_of_int (2 ^ 21)" using assms(2) by (simp only: of_int_le_iff)
    then show ?thesis using assms(1) by simp
  qed
  then have "(real (nat (3 * k)) + 2) / 2 ^ 50 \<le> (3 * 2 ^ 21 + 2) / 2 ^ 50"
    by (rule divide_right_mono) simp
  then have d: "\<bar>?f - 3 * pi / 2\<bar> \<le> (3 * 2 ^ 21 + 2) / 2 ^ 50" using e by linarith
  have "((3 * 2 ^ 21 + 2) / 2 ^ 50 :: real)\<^sup>2 \<le> 1 / 2 ^ 53" by (simp add: power_divide)
  with d have "(?f - 3 * pi / 2)\<^sup>2 / 2 \<le> 1 / 2 ^ 54" by (rule square_small)
  then have l: "1 - 1 / 2 ^ 54 \<le> cos (?f - 3 * pi / 2)"
    using cos_lower [of "?f - 3 * pi / 2"] by linarith
  have "sin ?f = sin ((?f - 3 * pi / 2) + pi / 2 + pi)" by simp
  also have "\<dots> = - sin ((?f - 3 * pi / 2) + pi / 2)" by (rule sin_periodic_pi)
  finally have s1: "sin ?f = - sin ((?f - 3 * pi / 2) + pi / 2)" .
  have s2: "sin ((?f - 3 * pi / 2) + pi / 2) = cos (?f - 3 * pi / 2)"
    using sin_add [of "?f - 3 * pi / 2" "pi / 2"] by simp
  have s: "- sin ?f = cos (?f - 3 * pi / 2)" unfolding s1 s2 by simp
  have "rd (- sin ?f) = 1" using l unfolding s by (rule rd_near_one) simp
  then have c: "c_sin ?f = - 1" unfolding c_sin_def by (simp add: rd_neg)
  have d: "double_of_int 32767 = 32767" using double_of_int_eq [of 32767] by simp
  have "dmul (c_sin ?f) (double_of_int 32767) = dmul (- 1) (double_of_int 32767)"
    by (simp only: c)
  also have "\<dots> = - 32767" by (simp add: dmul_def d rd_neg)
  finally have "dmul (c_sin ?f) (double_of_int 32767) = - 32767" .
  then have "int_of_double (dmul (c_sin ?f) (double_of_int 32767)) = - 32767"
    by (simp only:) (simp add: int_of_double_def)
  then show ?thesis using table_entry [OF N(1) i(2)] by simp
qed

lemma trunc_unique:
  assumes "of_int T \<le> d" "d < of_int T + 1" "0 \<le> T"
  shows "int_of_double d = T" "int_of_double (- d) = - T"
proof -
  have f: "\<lfloor>d\<rfloor> = T" using assms by (intro floor_unique) simp_all
  have d0: "0 \<le> d" using assms(1,3) by (metis of_int_0_le_iff order_trans)
  show "int_of_double d = T" using d0 f by (simp add: int_of_double_def)
  show "int_of_double (- d) = - T"
  proof (cases "d = 0")
    case True then show ?thesis using f by (simp add: int_of_double_def)
  next
    case False
    then have "\<not> 0 \<le> - d" using d0 by simp
    then show ?thesis using f by (simp add: int_of_double_def ceiling_def)
  qed
qed

lemma table_agree:
  assumes N: "0 < N" "N < 2 ^ 31" and i: "i < nat N"
    and T: "0 \<le> T"
    and lo: "of_int T + (of_nat i + 3) / 2 ^ 35 \<le> y"
    and hi: "y + (of_nat i + 3) / 2 ^ 35 < of_int T + 1"
  shows "sin (2 * pi * of_nat i / of_int N) * 32767 = y
           \<Longrightarrow> sint (build_sine_table N ! i) = T \<and> trunc_sample N i = T"
    and "sin (2 * pi * of_nat i / of_int N) * 32767 = - y
           \<Longrightarrow> sint (build_sine_table N ! i) = - T \<and> trunc_sample N i = - T"
proof -
  let ?d = "dmul (c_sin (((\<lambda>p. dadd p (ddiv (dmul 2 pi_c) (double_of_int N))) ^^ i) 0))
                        (double_of_int 32767)"
  let ?s = "sin (2 * pi * of_nat i / of_int N) * 32767"
  note e = table_error [OF N i]
  have p: "(0::real) \<le> (of_nat i + 3) / 2 ^ 35" by simp
  {
    assume y: "?s = y"
    have "of_int T \<le> ?d" "?d < of_int T + 1" using e lo hi unfolding y by linarith+
    then have a: "int_of_double ?d = T" using T by (rule trunc_unique(1))
    have "of_int T \<le> y" "y < of_int T + 1" using lo hi p by linarith+
    then have b: "int_of_double y = T" using T by (rule trunc_unique(1))
    show "sint (build_sine_table N ! i) = T \<and> trunc_sample N i = T"
      using a b table_entry [OF N(1) i] by (simp add: trunc_sample_def y)
  }
  {
    assume y: "?s = - y"
    have "of_int T \<le> - ?d" "- ?d < of_int T + 1" using e lo hi unfolding y by linarith+
    then have "int_of_double (- (- ?d)) = - T" using T by (rule trunc_unique(2))
    then have a: "int_of_double ?d = - T" by simp
    have "of_int T \<le> y" "y < of_int T + 1" using lo hi p by linarith+
    then have b: "int_of_double (- y) = - T" using T by (rule trunc_unique(2))
    show "sint (build_sine_table N ! i) = - T \<and> trunc_sample N i = - T"
      using a b table_entry [OF N(1) i] by (simp add: trunc_sample_def y)
  }
qed

subsection \<open>The tables of 8 and of 1024 entries\<close>

lemma encl_all_numeral:
  "encl_all (numeral v) st = (encl_ok st \<and> encl_all (pred_numeral v) (encl_step st))"
  by (simp add: numeral_eq_Suc)

lemma encl_all_255:
  "encl_all 255 (1727097988679, 1727097988722, 281469678023764, 281469678023766)"
  by (simp add: encl_all_numeral encl_step_def encl_ok_def)

lemma encl_first:
  "encl_step (0, 0, 281474976710656, 281474976710656)
     = (1727097988679, 1727097988722, 281469678023764, 281469678023766)"
  by (simp add: encl_step_def)

lemma encl_all_funpow:
  "encl_all k st \<Longrightarrow> j < k \<Longrightarrow> encl_ok ((encl_step ^^ j) st)"
proof (induction k arbitrary: st j)
  case 0
  then show ?case by simp
next
  case (Suc k)
  show ?case
  proof (cases j)
    case 0
    then show ?thesis using Suc.prems(1) by simp
  next
    case (Suc i)
    then have "i < k" using Suc.prems(2) by simp
    moreover have "encl_all k (encl_step st)" using Suc.prems(1) by simp
    ultimately have "encl_ok ((encl_step ^^ i) (encl_step st))" by (rule Suc.IH [rotated])
    then show ?thesis using Suc by (simp add: funpow_swap1)
  qed
qed

lemma sin_coeff_values:
  "sin_coeff (Suc 0) = 1" "sin_coeff 2 = 0" "sin_coeff 3 = - 1 / 6" "sin_coeff 4 = 0"
  "sin_coeff 5 = 1 / 120" "sin_coeff 6 = 0" "sin_coeff 7 = - 1 / 5040" "sin_coeff 8 = 0"
  by (simp_all add: sin_coeff_def fact_numeral)

lemma sum_below_5:
  "(\<Sum>m<5. f m) = f 0 + f 1 + f 2 + f 3 + (f (4::nat) :: real)"
  by (simp add: eval_nat_numeral lessThan_Suc)

lemma sin_quintic: "\<bar>sin x - (x - x ^ 3 / 6)\<bar> \<le> \<bar>x\<bar> ^ 5 / 120" for x :: real
proof -
  have "(\<Sum>m<5. sin_coeff m * x ^ m) = x - x ^ 3 / 6"
    unfolding sum_below_5 by (simp add: sin_coeff_values)
  then show ?thesis using Maclaurin_sin_bound [of x 5] by (simp add: fact_numeral)
qed

lemma sin_near:
  fixes t x d :: real
  assumes "\<bar>t - x\<bar> \<le> d"
  shows "x - x ^ 3 / 6 - \<bar>x\<bar> ^ 5 / 120 - d \<le> sin t"
    and "sin t \<le> x - x ^ 3 / 6 + \<bar>x\<bar> ^ 5 / 120 + d"
proof -
  have a: "\<bar>sin t - sin x\<bar> \<le> d" using sin_lipschitz [of t x] assms by linarith
  note b = sin_quintic [of x]
  show "x - x ^ 3 / 6 - \<bar>x\<bar> ^ 5 / 120 - d \<le> sin t" using a b by linarith
  show "sin t \<le> x - x ^ 3 / 6 + \<bar>x\<bar> ^ 5 / 120 + d" using a b by linarith
qed

lemma pi_frac:
  fixes n :: real
  assumes "0 < n"
  shows "\<bar>pi / n - pi_c / n\<bar> \<le> 1 / 2 ^ 52 / n"
proof -
  have "pi / n - pi_c / n = (pi - pi_c) / n" by (simp add: diff_divide_distrib)
  then have "\<bar>pi / n - pi_c / n\<bar> = \<bar>pi - pi_c\<bar> / n" using assms by simp
  also have "\<dots> \<le> 1 / 2 ^ 52 / n" using pi_c_error assms by (intro divide_right_mono) simp_all
  finally show ?thesis .
qed

lemma sin_step:
  "1727097988679 / 2 ^ 48 \<le> sin (pi / 512)" "sin (pi / 512) \<le> 1727097988721 / 2 ^ 48"
proof -
  let ?x = "pi_c / 512"
  have d: "\<bar>pi / 512 - ?x\<bar> \<le> 1 / 2 ^ 61" using pi_frac [of 512] by simp
  note s = sin_near [OF d]
  have "1727097988679 / 2 ^ 48 \<le> ?x - ?x ^ 3 / 6 - \<bar>?x\<bar> ^ 5 / 120 - 1 / 2 ^ 61"
    by (simp add: pi_c_val power_divide)
  then show "1727097988679 / 2 ^ 48 \<le> sin (pi / 512)" using s(1) by linarith
  have "?x - ?x ^ 3 / 6 + \<bar>?x\<bar> ^ 5 / 120 + 1 / 2 ^ 61 \<le> 1727097988721 / 2 ^ 48"
    by (simp add: pi_c_val power_divide)
  then show "sin (pi / 512) \<le> 1727097988721 / 2 ^ 48" using s(2) by linarith
qed

lemma sin_half_step:
  "3454212233615 / 2 ^ 50 \<le> sin (pi / 1024)" "sin (pi / 1024) \<le> 3454212233621 / 2 ^ 50"
proof -
  let ?x = "pi_c / 1024"
  have d: "\<bar>pi / 1024 - ?x\<bar> \<le> 1 / 2 ^ 62" using pi_frac [of 1024] by simp
  note s = sin_near [OF d]
  have "3454212233615 / 2 ^ 50 \<le> ?x - ?x ^ 3 / 6 - \<bar>?x\<bar> ^ 5 / 120 - 1 / 2 ^ 62"
    by (simp add: pi_c_val power_divide)
  then show "3454212233615 / 2 ^ 50 \<le> sin (pi / 1024)" using s(1) by linarith
  have "?x - ?x ^ 3 / 6 + \<bar>?x\<bar> ^ 5 / 120 + 1 / 2 ^ 62 \<le> 3454212233621 / 2 ^ 50"
    by (simp add: pi_c_val power_divide)
  then show "sin (pi / 1024) \<le> 3454212233621 / 2 ^ 50" using s(2) by linarith
qed

lemma cos_step:
  "281469678023764 / 2 ^ 48 \<le> cos (pi / 512)" "cos (pi / 512) \<le> 281469678023765 / 2 ^ 48"
proof -
  let ?a = "3454212233615 / 2 ^ 50 :: real" and ?b = "3454212233621 / 2 ^ 50 :: real"
  let ?s = "sin (pi / 1024)"
  have "cos (2 * (pi / 1024)) = 1 - 2 * ?s\<^sup>2" by (rule cos_double_sin)
  then have c: "cos (pi / 512) = 1 - 2 * ?s\<^sup>2" by simp
  have a0: "0 \<le> ?a" by simp
  then have s0: "0 \<le> ?s" using sin_half_step(1) by linarith
  have "?a\<^sup>2 \<le> ?s\<^sup>2" using sin_half_step(1) a0 by (intro power_mono) simp_all
  moreover have "?s\<^sup>2 \<le> ?b\<^sup>2" using sin_half_step(2) s0 by (intro power_mono) simp_all
  moreover have "281469678023764 / 2 ^ 48 \<le> 1 - 2 * ?b\<^sup>2" by (simp add: power_divide)
  moreover have "1 - 2 * ?a\<^sup>2 \<le> 281469678023765 / 2 ^ 48" by (simp add: power_divide)
  ultimately show "281469678023764 / 2 ^ 48 \<le> cos (pi / 512)"
    "cos (pi / 512) \<le> 281469678023765 / 2 ^ 48" unfolding c by linarith+
qed

lemma drop48:
  "of_int (drop_bit 48 a) \<le> (of_int a / 2 ^ 48 :: real)"
  "(of_int a / 2 ^ 48 :: real) < of_int (drop_bit 48 a) + 1"
proof -
  have "drop_bit 48 a = a div 2 ^ 48" by (rule drop_bit_eq_div)
  also have "\<dots> = \<lfloor>of_int a / of_int (2 ^ 48) :: real\<rfloor>" by (rule floor_divide_of_int_eq [symmetric])
  finally have f: "drop_bit 48 a = \<lfloor>of_int a / 2 ^ 48 :: real\<rfloor>" by simp
  show "of_int (drop_bit 48 a) \<le> (of_int a / 2 ^ 48 :: real)" unfolding f by (rule of_int_floor_le)
  show "(of_int a / 2 ^ 48 :: real) < of_int (drop_bit 48 a) + 1" unfolding f by linarith
qed

lemma drop48_nonneg: "0 \<le> a \<Longrightarrow> 0 \<le> drop_bit 48 a" for a :: int
  by simp

lemma encl_step_sound:
  assumes "encloses st x" "0 \<le> cos (x + pi / 512)"
  shows "encloses (encl_step st) (x + pi / 512)"
proof -
  obtain sl sh cl ch where st: "st = (sl, sh, cl, ch)" by (cases st)
  let ?D = "2 ^ 48 :: real"
  let ?s = "?D * sin x" and ?c = "?D * cos x"
  let ?S = "?D * sin (pi / 512)" and ?C = "?D * cos (pi / 512)"
  let ?Sl = "1727097988679 :: int" and ?Sh = "1727097988721 :: int"
  let ?Cl = "281469678023764 :: int" and ?Ch = "281469678023765 :: int"
  from assms(1) have e: "0 \<le> sl" "0 \<le> cl" "of_int sl \<le> ?s" "?s \<le> of_int sh"
    "of_int cl \<le> ?c" "?c \<le> of_int ch" by (simp_all add: encloses_def st)
  have S: "of_int ?Sl \<le> ?S" "?S \<le> of_int ?Sh" using sin_step by (simp_all add: field_simps)
  have C: "of_int ?Cl \<le> ?C" "?C \<le> of_int ?Ch" using cos_step by (simp_all add: field_simps)
  have n: "(0::real) \<le> of_int sl" "(0::real) \<le> of_int cl" using e(1,2) by simp_all
  have p: "0 \<le> ?s" "0 \<le> ?c" "0 \<le> ?S" "0 \<le> ?C" using n e(3,5) S(1) C(1) by linarith+
  have "?D * sin (x + pi / 512) = ?D * (sin x * cos (pi / 512) + cos x * sin (pi / 512))"
    by (simp only: sin_add)
  also have "\<dots> = (?s * ?C + ?c * ?S) / ?D" by (simp add: field_simps)
  finally have sn: "?D * sin (x + pi / 512) = (?s * ?C + ?c * ?S) / ?D" .
  have "?D * cos (x + pi / 512) = ?D * (cos x * cos (pi / 512) - sin x * sin (pi / 512))"
    by (simp only: cos_add)
  also have "\<dots> = (?c * ?C - ?s * ?S) / ?D" by (simp add: field_simps)
  finally have cs: "?D * cos (x + pi / 512) = (?c * ?C - ?s * ?S) / ?D" .
  have m1: "of_int sl * of_int ?Cl \<le> ?s * ?C" using e(3) C(1) n(1) by (intro mult_mono) simp_all
  have m2: "of_int cl * of_int ?Sl \<le> ?c * ?S" using e(5) S(1) n(2) by (intro mult_mono) simp_all
  have m3: "?s * ?C \<le> of_int sh * of_int ?Ch" using e(4) C(2) p(1,4) by (intro mult_mono) linarith+
  have m4: "?c * ?S \<le> of_int ch * of_int ?Sh" using e(6) S(2) p(2,3) by (intro mult_mono) linarith+
  have m5: "?s * ?S \<le> of_int sh * of_int ?Sh" using e(4) S(2) p(1,3) by (intro mult_mono) linarith+
  have m6: "?c * ?C \<le> of_int ch * of_int ?Ch" using e(6) C(2) p(2,4) by (intro mult_mono) linarith+
  have m7: "of_int sl * of_int ?Sl \<le> ?s * ?S" using e(3) S(1) n(1) by (intro mult_mono) simp_all
  have m8: "of_int cl * of_int ?Cl \<le> ?c * ?C" using e(5) C(1) n(2) by (intro mult_mono) simp_all
  let ?a1 = "sl * ?Cl + cl * ?Sl" and ?a2 = "sh * ?Ch + ch * ?Sh"
  let ?a3 = "cl * ?Cl - sh * ?Sh" and ?a4 = "ch * ?Ch - sl * ?Sl"
  have "real_of_int ?a1 \<le> ?s * ?C + ?c * ?S" using m1 m2 by simp
  then have "real_of_int ?a1 / ?D \<le> (?s * ?C + ?c * ?S) / ?D" by (rule divide_right_mono) simp
  then have r1: "of_int (drop_bit 48 ?a1) \<le> ?D * sin (x + pi / 512)"
    unfolding sn using drop48(1) [of ?a1] by linarith
  have "?s * ?C + ?c * ?S \<le> real_of_int ?a2" using m3 m4 by simp
  then have "(?s * ?C + ?c * ?S) / ?D \<le> real_of_int ?a2 / ?D" by (rule divide_right_mono) simp
  then have r2: "?D * sin (x + pi / 512) \<le> of_int (drop_bit 48 ?a2 + 1)"
    unfolding sn using drop48(2) [of ?a2] by simp
  have "real_of_int ?a3 \<le> ?c * ?C - ?s * ?S" using m8 m5 by simp
  then have "real_of_int ?a3 / ?D \<le> (?c * ?C - ?s * ?S) / ?D" by (rule divide_right_mono) simp
  then have "of_int (drop_bit 48 ?a3) \<le> ?D * cos (x + pi / 512)"
    unfolding cs using drop48(1) [of ?a3] by linarith
  moreover have "0 \<le> ?D * cos (x + pi / 512)" using assms(2) by simp
  ultimately have r3: "of_int (max 0 (drop_bit 48 ?a3)) \<le> ?D * cos (x + pi / 512)"
    by (simp add: max_def)
  have "?c * ?C - ?s * ?S \<le> real_of_int ?a4" using m6 m7 by simp
  then have "(?c * ?C - ?s * ?S) / ?D \<le> real_of_int ?a4 / ?D" by (rule divide_right_mono) simp
  then have r4: "?D * cos (x + pi / 512) \<le> of_int (drop_bit 48 ?a4 + 1)"
    unfolding cs using drop48(2) [of ?a4] by simp
  have "0 \<le> ?a1" using e(1,2) by simp
  then have r0: "0 \<le> drop_bit 48 ?a1" by (rule drop48_nonneg)
  show ?thesis
    unfolding st encl_step_def encloses_def prod.case
    using r0 r1 r2 r3 r4 by (intro conjI) simp_all
qed

lemma encl_funpow:
  "j \<le> 256 \<Longrightarrow> encloses ((encl_step ^^ j) (0, 0, 281474976710656, 281474976710656))
     (of_nat j * (pi / 512))"
proof (induction j)
  case 0
  show ?case by (simp add: encloses_def)
next
  case (Suc j)
  let ?st = "(encl_step ^^ j) (0, 0, 281474976710656, 281474976710656)"
  have ih: "encloses ?st (of_nat j * (pi / 512))" using Suc by simp
  have x: "of_nat (Suc j) * (pi / 512) = of_nat j * (pi / 512) + pi / 512"
    by (simp add: algebra_simps)
  have "real (Suc j) \<le> 256" using Suc.prems by simp
  then have "real (Suc j) * (pi / 512) \<le> 256 * (pi / 512)" by (intro mult_right_mono) simp_all
  then have "of_nat (Suc j) * (pi / 512) \<le> pi / 2" by simp
  moreover have "- (pi / 2) \<le> of_nat (Suc j) * (pi / 512)"
  proof -
    have "0 \<le> real (Suc j) * (pi / 512)" by simp
    then show ?thesis using pi_ge_zero by linarith
  qed
  ultimately have "0 \<le> cos (of_nat (Suc j) * (pi / 512))" by (intro cos_ge_zero)
  then have "encloses (encl_step ?st) (of_nat j * (pi / 512) + pi / 512)"
    unfolding x by (rule encl_step_sound [OF ih])
  then show ?case unfolding x by simp
qed

lemma first_quadrant:
  assumes "0 < j" "j < 256"
  shows "\<exists>T\<ge>0. of_int T + 1 / 2 ^ 24 \<le> sin (of_nat j * (pi / 512)) * 32767
           \<and> sin (of_nat j * (pi / 512)) * 32767 + 1 / 2 ^ 24 < of_int T + 1"
proof -
  let ?z = "(0, 0, 281474976710656, 281474976710656) :: int \<times> int \<times> int \<times> int"
  let ?st = "(encl_step ^^ j) ?z"
  let ?y = "sin (of_nat j * (pi / 512)) * 32767"
  obtain i where j: "j = Suc i" using assms(1) by (cases j) simp_all
  have "encl_ok ((encl_step ^^ i) (encl_step ?z))"
    unfolding encl_first using encl_all_255 by (rule encl_all_funpow) (use assms(2) j in simp)
  then have ok: "encl_ok ?st" unfolding j by (simp add: funpow_swap1)
  have en: "encloses ?st (of_nat j * (pi / 512))" using assms(2) by (intro encl_funpow) simp
  obtain sl sh cl ch where st: "?st = (sl, sh, cl, ch)" by (cases ?st)
  from ok have o: "16777216 \<le> 32767 * sl"
    "drop_bit 48 (32767 * sl - 16777216) = drop_bit 48 (32767 * sh + 16777216)"
    by (simp_all add: encl_ok_def st)
  from en have e: "of_int sl \<le> 2 ^ 48 * sin (of_nat j * (pi / 512))"
    "2 ^ 48 * sin (of_nat j * (pi / 512)) \<le> of_int sh"
    by (simp_all add: encloses_def st)
  let ?T = "drop_bit 48 (32767 * sl - 16777216)"
  have T0: "0 \<le> ?T" using o(1) by simp
  have "of_int ?T \<le> (of_int (32767 * sl - 16777216) / 2 ^ 48 :: real)" by (rule drop48(1))
  also have "\<dots> = 32767 * of_int sl / 2 ^ 48 - 1 / 2 ^ 24" by (simp add: diff_divide_distrib)
  also have "\<dots> \<le> 32767 * (2 ^ 48 * sin (of_nat j * (pi / 512))) / 2 ^ 48 - 1 / 2 ^ 24"
    using e(1) by (intro diff_right_mono divide_right_mono mult_left_mono) simp_all
  also have "\<dots> = ?y - 1 / 2 ^ 24" by simp
  finally have lo: "of_int ?T + 1 / 2 ^ 24 \<le> ?y" by linarith
  have "?y + 1 / 2 ^ 24 = 32767 * (2 ^ 48 * sin (of_nat j * (pi / 512))) / 2 ^ 48 + 1 / 2 ^ 24"
    by simp
  also have "\<dots> \<le> 32767 * of_int sh / 2 ^ 48 + 1 / 2 ^ 24"
    using e(2) by (intro add_right_mono divide_right_mono mult_left_mono) simp_all
  also have "\<dots> = (of_int (32767 * sh + 16777216) / 2 ^ 48 :: real)"
    by (simp add: add_divide_distrib)
  also have "\<dots> < of_int (drop_bit 48 (32767 * sh + 16777216)) + 1" by (rule drop48(2))
  finally have hi: "?y + 1 / 2 ^ 24 < of_int ?T + 1" unfolding o(2) .
  show ?thesis using T0 lo hi by blast
qed

lemma sqrt2_bounds: "141421 / 100000 < sqrt 2" "sqrt 2 < 141422 / 100000"
proof -
  show "141421 / 100000 < sqrt 2" by (rule real_less_rsqrt) (simp add: power2_eq_square)
  show "sqrt 2 < 141422 / 100000" by (rule real_less_lsqrt) (simp_all add: power2_eq_square)
qed

lemma trunc_small: "\<bar>d\<bar> < 1 \<Longrightarrow> int_of_double d = 0"
proof -
  assume a: "\<bar>d\<bar> < 1"
  show ?thesis
  proof (cases "0 \<le> d")
    case True
    then have "\<lfloor>d\<rfloor> = 0" using a by (intro floor_unique) simp_all
    then show ?thesis using True by (simp add: int_of_double_def)
  next
    case False
    then have "\<lceil>d\<rceil> = 0" using a by (intro ceiling_unique) simp_all
    then show ?thesis using False by (simp add: int_of_double_def)
  qed
qed

lemma table_first: "0 < N \<Longrightarrow> build_sine_table N ! 0 = 0"
proof -
  assume "0 < N"
  then have n: "0 < nat N" by simp
  show ?thesis
    using sine_loop_nth [OF n, of "ddiv (dmul 2 pi_c) (double_of_int N)" 0]
    by (simp add: build_sine_table_def c_sin_def dmul_def int_of_double_def)
qed

lemma table_exact:
  assumes k: "0 < k" "4 * k \<le> 1024"
    and q: "\<And>j. 0 < j \<Longrightarrow> j < nat k \<Longrightarrow>
          \<exists>T\<ge>0. of_int T + 1 / 2 ^ 24 \<le> sin (2 * pi * of_nat j / of_int (4 * k)) * 32767
            \<and> sin (2 * pi * of_nat j / of_int (4 * k)) * 32767 + 1 / 2 ^ 24 < of_int T + 1"
    and i: "i < nat (4 * k)"
  shows "sint (build_sine_table (4 * k) ! i) = trunc_sample (4 * k) i"
proof -
  let ?N = "4 * k"
  let ?K = "nat k"
  let ?n = "of_int ?N :: real"
  let ?th = "\<lambda>i :: nat. 2 * pi * of_nat i / ?n"
  have N: "0 < ?N" "?N < 2 ^ 31" using k by simp_all
  have K: "real ?K = of_int k" "0 < real ?K" using k(1) by simp_all
  have n: "?n = 4 * real ?K" using K(1) by simp
  have k21: "k \<le> 2 ^ 21" "k \<le> 2 ^ 23" using k(2) by simp_all
  have nk: "nat ?N = 4 * ?K" using k(1) by simp
  have small: "(real m + 3) / 2 ^ 35 \<le> 1 / 2 ^ 24" if "m < nat ?N" for m
  proof -
    have "int m < 1024" using that k by linarith
    then have "real m < 1024" by (metis of_int_less_iff of_int_of_nat_eq of_int_numeral)
    then show ?thesis by simp
  qed
  have agree: "sint (build_sine_table ?N ! m) = trunc_sample ?N m"
    if m: "m < nat ?N" and j: "0 < j" "j < ?K"
      and s: "sin (?th m) = sin (?th j) \<or> sin (?th m) = - sin (?th j)" for m j
  proof -
    from q [OF j] obtain T where T: "0 \<le> T"
      "of_int T + 1 / 2 ^ 24 \<le> sin (?th j) * 32767"
      "sin (?th j) * 32767 + 1 / 2 ^ 24 < of_int T + 1" by blast
    let ?y = "sin (?th j) * 32767"
    have lo: "of_int T + (of_nat m + 3) / 2 ^ 35 \<le> ?y" using T(2) small [OF m] by linarith
    have hi: "?y + (of_nat m + 3) / 2 ^ 35 < of_int T + 1" using T(3) small [OF m] by linarith
    note a = table_agree [OF N m T(1) lo hi]
    from s show ?thesis
    proof
      assume "sin (?th m) = sin (?th j)"
      then have "sin (?th m) * 32767 = ?y" by simp
      then show ?thesis using a(1) by simp
    next
      assume "sin (?th m) = - sin (?th j)"
      then have "sin (?th m) * 32767 = - ?y" by simp
      then show ?thesis using a(2) by simp
    qed
  qed
  have th_add: "?th (a + b) = ?th a + ?th b" for a b
    by (simp add: add_divide_distrib distrib_left)
  have thK: "?th ?K = pi / 2" "?th (2 * ?K) = pi" "?th (3 * ?K) = 3 * pi / 2" "?th (4 * ?K) = 2 * pi"
    using K(2) unfolding n by simp_all
  consider "i = 0" | "0 < i \<and> i < ?K" | "i = ?K" | "?K < i \<and> i < 2 * ?K" | "i = 2 * ?K"
    | "2 * ?K < i \<and> i < 3 * ?K" | "i = 3 * ?K" | "3 * ?K < i \<and> i < 4 * ?K"
    using i nk by linarith
  then show ?thesis
  proof cases
    case 1
    then show ?thesis using table_first [OF N(1)] by (simp add: trunc_sample_def int_of_double_def)
  next
    case 2
    then show ?thesis using agree [OF i, of i] by simp
  next
    case 3
    have "trunc_sample ?N ?K = int_of_double (sin (?th ?K) * 32767)" by (simp add: trunc_sample_def)
    also have "\<dots> = 32767" unfolding thK by (simp add: int_of_double_def)
    finally show ?thesis using table_peak [OF k(1) k21(2)] 3 by simp
  next
    case 4
    define j where "j = 2 * ?K - i"
    have j: "0 < j" "j < ?K" "i + j = 2 * ?K" using 4 unfolding j_def by linarith+
    have "?th i + ?th j = pi" using th_add [of i j] thK(2) j(3) by simp
    then have "?th i = pi - ?th j" by linarith
    then have "sin (?th i) = sin (?th j)" by (simp only: sin_pi_minus)
    then show ?thesis using agree [OF i j(1,2)] by simp
  next
    case 5
    have e: "\<bar>dmul (c_sin (((\<lambda>p. dadd p (ddiv (dmul 2 pi_c) (double_of_int ?N))) ^^ i) 0))
               (double_of_int 32767) - sin (?th i) * 32767\<bar> \<le> (of_nat i + 3) / 2 ^ 35"
      using N i by (rule table_error)
    have "sin (?th i) = 0" using 5 thK(2) by simp
    then have "\<bar>dmul (c_sin (((\<lambda>p. dadd p (ddiv (dmul 2 pi_c) (double_of_int ?N))) ^^ i) 0))
               (double_of_int 32767)\<bar> \<le> 1 / 2 ^ 24"
      using e small [OF i] by simp
    moreover have "(1 / 2 ^ 24 :: real) < 1" by simp
    ultimately have "int_of_double (dmul (c_sin (((\<lambda>p. dadd p (ddiv (dmul 2 pi_c)
        (double_of_int ?N))) ^^ i) 0)) (double_of_int 32767)) = 0"
      by (intro trunc_small) linarith
    then have a: "sint (build_sine_table ?N ! i) = 0" using table_entry [OF N(1) i] by simp
    have "trunc_sample ?N i = int_of_double (sin (?th i) * 32767)" by (simp add: trunc_sample_def)
    also have "\<dots> = 0" using 5 thK(2) by (simp add: int_of_double_def)
    finally show ?thesis using a by simp
  next
    case 6
    define j where "j = i - 2 * ?K"
    have j: "0 < j" "j < ?K" "i = j + 2 * ?K" using 6 unfolding j_def by linarith+
    have "?th i = ?th j + pi" using th_add [of j "2 * ?K"] thK(2) j(3) by simp
    then have "sin (?th i) = - sin (?th j)" by (simp only: sin_periodic_pi)
    then show ?thesis using agree [OF i j(1,2)] by simp
  next
    case 7
    have "trunc_sample ?N (3 * ?K) = int_of_double (sin (?th (3 * ?K)) * 32767)"
      by (simp add: trunc_sample_def)
    also have "sin (?th (3 * ?K)) = - 1"
    proof -
      have "sin (3 * pi / 2) = sin (pi / 2 + pi)" by simp
      also have "\<dots> = - sin (pi / 2)" by (rule sin_periodic_pi)
      finally show ?thesis unfolding thK by simp
    qed
    finally have "trunc_sample ?N (3 * ?K) = - 32767" by (simp add: int_of_double_def)
    moreover have "nat (3 * k) = 3 * ?K" using k(1) by simp
    ultimately show ?thesis using table_trough [OF k(1) k21(1)] 7 by simp
  next
    case 8
    define j where "j = 4 * ?K - i"
    have j: "0 < j" "j < ?K" "i + j = 4 * ?K" using 8 unfolding j_def by linarith+
    have "?th i + ?th j = 2 * pi" using th_add [of i j] thK(4) j(3) by simp
    then have "?th i = 2 * pi - ?th j" by linarith
    then have "sin (?th i) = - sin (?th j)" by (simp only: sin_2pi_minus)
    then show ?thesis using agree [OF i j(1,2)] by simp
  qed
qed

lemma table_1024:
  assumes "i < 1024"
  shows "sint (build_sine_table 1024 ! i) = trunc_sample 1024 i"
proof -
  have q: "\<exists>T\<ge>0. of_int T + 1 / 2 ^ 24 \<le> sin (2 * pi * of_nat j / of_int (4 * 256)) * 32767
            \<and> sin (2 * pi * of_nat j / of_int (4 * 256)) * 32767 + 1 / 2 ^ 24 < of_int T + 1"
    if "0 < j" "j < nat 256" for j
  proof -
    have e: "2 * pi * of_nat j / of_int (4 * 256) = of_nat j * (pi / 512)" by simp
    have j: "j < 256" using that(2) by simp
    show ?thesis unfolding e by (rule first_quadrant [OF that(1) j])
  qed
  have "sint (build_sine_table (4 * 256) ! i) = trunc_sample (4 * 256) i"
    by (rule table_exact [OF _ _ q]) (use assms in simp_all)
  then show ?thesis by simp
qed

lemma table_8:
  assumes "i < 8"
  shows "sint (build_sine_table 8 ! i) = trunc_sample 8 i"
proof -
  have q: "\<exists>T\<ge>0. of_int T + 1 / 2 ^ 24 \<le> sin (2 * pi * of_nat j / of_int (4 * 2)) * 32767
            \<and> sin (2 * pi * of_nat j / of_int (4 * 2)) * 32767 + 1 / 2 ^ 24 < of_int T + 1"
    if "0 < j" "j < nat 2" for j
  proof -
    have j: "j = 1" using that by simp
    have "2 * pi * of_nat j / of_int (4 * 2) = pi / 4" unfolding j by simp
    then have s: "sin (2 * pi * of_nat j / of_int (4 * 2)) = sqrt 2 / 2" by (simp only: sin_45)
    have "of_int 23169 + 1 / 2 ^ 24 \<le> sqrt 2 / 2 * 32767"
      "sqrt 2 / 2 * 32767 + 1 / 2 ^ 24 < of_int 23169 + 1"
      using sqrt2_bounds by simp_all
    then show ?thesis unfolding s by (intro exI [of _ 23169]) simp
  qed
  have "sint (build_sine_table (4 * 2) ! i) = trunc_sample (4 * 2) i"
    by (rule table_exact [OF _ _ q]) (use assms in simp_all)
  then show ?thesis by simp
qed

lemma trunc_sample_8_1: "trunc_sample 8 1 = 23169"
proof -
  have "sin (2 * pi * real 1 / real_of_int 8) = sin (pi / 4)" by simp
  then have s: "sin (2 * pi * real 1 / real_of_int 8) = sqrt 2 / 2" by (simp only: sin_45)
  have "0 \<le> sqrt 2 / 2 * 32767" by simp
  moreover have "\<lfloor>sqrt 2 / 2 * 32767\<rfloor> = 23169"
    using sqrt2_bounds by (intro floor_unique) simp_all
  ultimately show ?thesis unfolding trunc_sample_def s int_of_double_def by simp
qed

lemma sine_table_8_1: "sint (build_sine_table 8 ! 1) = 23169"
  using table_8 [of 1] trunc_sample_8_1 by simp

lemma spec_sample_8_1: "spec_sample 8 1 = 23170"
proof -
  have "sin (2 * pi * real 1 / real_of_int 8) = sin (pi / 4)" by simp
  then have s: "sin (2 * pi * real 1 / real_of_int 8) = sqrt 2 / 2" by (simp only: sin_45)
  have "\<lfloor>sqrt 2 / 2 * 32767 + 1 / 2\<rfloor> = 23170"
    using sqrt2_bounds by (intro floor_unique) simp_all
  then show ?thesis unfolding spec_sample_def s round_def by simp
qed

lemma sine_table_1: "build_sine_table 1 = [0]"
  by (simp add: build_sine_table_def c_sin_def dmul_def int_of_double_def)

lemma trunc_error: "\<bar>of_int (int_of_double d) - d\<bar> < 1"
  by (simp add: int_of_double_def; linarith)

text \<open>
  C3, amended. For every table length \<open>N\<close> of the type \<^verbatim>\<open>int\<close>, \<open>0 < N < 2^31\<close>, the builder
  produces exactly \<open>N\<close> samples and \<open>table[0] = 0\<close>. Sample \<open>i\<close> is the truncation toward
  zero (the C cast, not a rounding) of the double product \<open>sin (phase i) * 32767\<close>, where
  \<open>phase i\<close> is the \<open>i\<close>-fold accumulated sum of the increment; that product differs from
  \<open>sin (2 pi i / N) * 32767\<close> by at most \<open>(i + 3) / 2^35\<close>, so the sample is within
  \<open>1 + (i + 3) / 2^35\<close> of it, and its magnitude is at most 32767. When \<open>N\<close> is a multiple
  of 4, up to \<open>2^25\<close>, entry \<open>N / 4\<close> is the ceiling 32767 itself. For \<open>N = 8\<close> and for
  \<open>N = 1024\<close>, the table of the program, every sample is exactly the truncation toward
  zero of \<open>sin (2 pi i / N) * 32767\<close>.
\<close>

theorem C3_sine_table:
  assumes "0 < N" "N < 2 ^ 31"
  shows "length (build_sine_table N) = nat N
       \<and> build_sine_table N ! 0 = 0
       \<and> (\<forall>i<nat N.
            sint (build_sine_table N ! i)
              = int_of_double (dmul (c_sin (((\<lambda>p. dadd p (ddiv (dmul 2 pi_c) (double_of_int N))) ^^ i) 0))
                                (double_of_int 32767))
            \<and> \<bar>dmul (c_sin (((\<lambda>p. dadd p (ddiv (dmul 2 pi_c) (double_of_int N))) ^^ i) 0))
                   (double_of_int 32767)
                 - sin (2 * pi * of_nat i / of_int N) * 32767\<bar> \<le> (of_nat i + 3) / 2 ^ 35
            \<and> \<bar>of_int (sint (build_sine_table N ! i)) - sin (2 * pi * of_nat i / of_int N) * 32767\<bar>
                 < 1 + (of_nat i + 3) / 2 ^ 35
            \<and> \<bar>sint (build_sine_table N ! i)\<bar> \<le> 32767)
       \<and> (4 dvd N \<and> N \<le> 2 ^ 25 \<longrightarrow> sint (build_sine_table N ! nat (N div 4)) = 32767)
       \<and> (N = 8 \<or> N = 1024 \<longrightarrow>
            (\<forall>i<nat N. sint (build_sine_table N ! i) = trunc_sample N i))"
proof -
  let ?d = "\<lambda>i. dmul (c_sin (((\<lambda>p. dadd p (ddiv (dmul 2 pi_c) (double_of_int N))) ^^ i) 0))
                   (double_of_int 32767)"
  let ?y = "\<lambda>i :: nat. sin (2 * pi * of_nat i / of_int N) * 32767"
  have a: "sint (build_sine_table N ! i) = int_of_double (?d i)
       \<and> \<bar>?d i - ?y i\<bar> \<le> (of_nat i + 3) / 2 ^ 35
       \<and> \<bar>of_int (sint (build_sine_table N ! i)) - ?y i\<bar> < 1 + (of_nat i + 3) / 2 ^ 35
       \<and> \<bar>sint (build_sine_table N ! i)\<bar> \<le> 32767" if i: "i < nat N" for i
  proof -
    note e = table_entry [OF assms(1) i] and b = table_error [OF assms i]
    have "\<bar>of_int (int_of_double (?d i)) - ?d i\<bar> < 1" by (rule trunc_error)
    then have c: "\<bar>of_int (sint (build_sine_table N ! i)) - ?y i\<bar> < 1 + (of_nat i + 3) / 2 ^ 35"
      unfolding e using b by linarith
    have "- 32767 \<le> int_of_double (?d i)" "int_of_double (?d i) \<le> 32767" by (rule sample_bounds)+
    then have "\<bar>sint (build_sine_table N ! i)\<bar> \<le> 32767" unfolding e by linarith
    then show ?thesis using e b c by blast
  qed
  have p: "sint (build_sine_table N ! nat (N div 4)) = 32767" if d: "4 dvd N" and le: "N \<le> 2 ^ 25"
  proof -
    obtain k where k: "N = 4 * k" using d unfolding dvd_def by blast
    have "0 < k" "k \<le> 2 ^ 23" using assms(1) le unfolding k by simp_all
    then show ?thesis unfolding k using table_peak [of k] by simp
  qed
  have x: "\<forall>i<nat N. sint (build_sine_table N ! i) = trunc_sample N i" if "N = 8 \<or> N = 1024"
    using that table_8 table_1024 by auto
  show ?thesis
    using length_build_sine_table [of N] table_first [OF assms(1)] a p x by blast
qed

text \<open>
  C3, as stated, fails: for \<open>N = 8\<close> the builder stores 23169 at index 1, the truncation
  of 23169.77, where the rounding of the specification gives 23170; and for \<open>N = 1\<close> the
  table is \<open>[0]\<close>, whose maximum is nowhere near the amplitude ceiling.
\<close>

theorem C3_counterexample:
  "sint (build_sine_table 8 ! 1) = 23169 \<and> spec_sample 8 1 = 23170 \<and> build_sine_table 1 = [0]"
  using sine_table_8_1 spec_sample_8_1 sine_table_1 by simp

theorem C3_sine_table_witness:
  "((0::int) < 8 \<and> (8::int) < 2 ^ 31 \<and> (1::nat) < nat 8 \<and> (4::int) dvd 8 \<and> (8::int) \<le> 2 ^ 25)
   \<and> length (build_sine_table 8) = nat 8
   \<and> build_sine_table 8 ! 0 = 0
   \<and> sint (build_sine_table 8 ! 1)
        = int_of_double (dmul (c_sin (((\<lambda>p. dadd p (ddiv (dmul 2 pi_c) (double_of_int 8))) ^^ 1) 0))
                          (double_of_int 32767))
   \<and> \<bar>dmul (c_sin (((\<lambda>p. dadd p (ddiv (dmul 2 pi_c) (double_of_int 8))) ^^ 1) 0))
          (double_of_int 32767)
        - sin (2 * pi * of_nat 1 / of_int 8) * 32767\<bar> \<le> (of_nat 1 + 3) / 2 ^ 35
   \<and> \<bar>of_int (sint (build_sine_table 8 ! 1)) - sin (2 * pi * of_nat 1 / of_int 8) * 32767\<bar>
        < 1 + (of_nat 1 + 3) / 2 ^ 35
   \<and> \<bar>sint (build_sine_table 8 ! 1)\<bar> \<le> 32767
   \<and> sint (build_sine_table 8 ! nat (8 div 4)) = 32767
   \<and> sint (build_sine_table 8 ! 1) = trunc_sample 8 1"
proof -
  have h: "(0::int) < 8" "(8::int) < 2 ^ 31" "(1::nat) < nat 8" "(4::int) dvd 8" "(8::int) \<le> 2 ^ 25"
    by simp_all
  note t = C3_sine_table [OF h(1,2)]
  have l: "length (build_sine_table 8) = nat 8" using t by (rule conjunct1)
  have z: "build_sine_table 8 ! 0 = 0" using t by (elim conjE)
  have a: "sint (build_sine_table 8 ! 1)
        = int_of_double (dmul (c_sin (((\<lambda>p. dadd p (ddiv (dmul 2 pi_c) (double_of_int 8))) ^^ 1) 0))
                          (double_of_int 32767))
   \<and> \<bar>dmul (c_sin (((\<lambda>p. dadd p (ddiv (dmul 2 pi_c) (double_of_int 8))) ^^ 1) 0))
          (double_of_int 32767)
        - sin (2 * pi * of_nat 1 / of_int 8) * 32767\<bar> \<le> (of_nat 1 + 3) / 2 ^ 35
   \<and> \<bar>of_int (sint (build_sine_table 8 ! 1)) - sin (2 * pi * of_nat 1 / of_int 8) * 32767\<bar>
        < 1 + (of_nat 1 + 3) / 2 ^ 35
   \<and> \<bar>sint (build_sine_table 8 ! 1)\<bar> \<le> 32767"
    using t [THEN conjunct2, THEN conjunct2, THEN conjunct1, rule_format, OF h(3)] .
  have p: "sint (build_sine_table 8 ! nat (8 div 4)) = 32767"
    using t [THEN conjunct2, THEN conjunct2, THEN conjunct2, THEN conjunct1, rule_format]
      h(4,5) by blast
  have x: "sint (build_sine_table 8 ! 1) = trunc_sample 8 1"
    using t [THEN conjunct2, THEN conjunct2, THEN conjunct2, THEN conjunct2, rule_format,
        OF disjI1 [OF refl] h(3)] .
  show ?thesis using h l z a p x by (intro conjI) (elim conjE, assumption)+
qed

section \<open>Properties of the pitch calculator\<close>

lemma chromatic_ratio_val: "chromatic_ratio = 4771397596969315 / 4503599627370496"
  unfolding chromatic_ratio_def by (simp add: double_eval)

lemma chromatic_ratio_root: "\<bar>chromatic_ratio - root 12 2\<bar> \<le> 1 / 2 ^ 53"
proof -
  let ?c = "4771397596969315 / 4503599627370496 :: real"
  have lo: "(?c - 1 / 2 ^ 53) ^ 12 < 2" by (simp add: power_divide)
  have hi: "2 < (?c + 1 / 2 ^ 53) ^ 12" by (simp add: power_divide)
  have "root 12 ((?c - 1 / 2 ^ 53) ^ 12) < root 12 2"
    using lo by (intro real_root_less_mono) simp_all
  then have 1: "?c - 1 / 2 ^ 53 < root 12 2"
    by (simp add: real_root_power_cancel)
  have "root 12 2 < root 12 ((?c + 1 / 2 ^ 53) ^ 12)"
    using hi by (intro real_root_less_mono) simp_all
  then have 2: "root 12 2 < ?c + 1 / 2 ^ 53"
    by (simp add: real_root_power_cancel)
  from 1 2 show ?thesis unfolding chromatic_ratio_val abs_le_iff by linarith
qed

lemma get_pitch_int:
  assumes "- 12206 \<le> n" "n \<le> 12239"
  shows "get_pitch (double_of_int n) = rd (rd (chromatic_ratio powr of_int (n - 57)) * 440)"
proof -
  have a: "double_of_int n = of_int n" using assms by (intro double_of_int_eq) simp
  have "rd (of_int (n - 57)) = of_int (n - 57)" using assms by (intro rd_int) simp
  then have b: "dsub (of_int n) 57 = of_int (n - 57)" by (simp add: dsub_def)
  show ?thesis by (simp only: get_pitch_def a b c_pow_def dmul_def)
qed

lemma pitch_bounds:
  assumes "0 < A"
  shows "(1 - 1 / 2 ^ 53) * ((1 - 1 / 2 ^ 53) * (A * 440)) \<le> rd (rd A * 440)"
    and "rd (rd A * 440) \<le> (1 + 1 / 2 ^ 53) * ((1 + 1 / 2 ^ 53) * (A * 440))"
    and "0 < rd (rd A * 440)"
proof -
  have r: "0 < rd A" using assms by (rule rd_pos)
  then have p: "0 < rd A * 440" by simp
  note a = rd_rel_bounds [OF assms] and b = rd_rel_bounds [OF p]
  have "(1 - 1 / 2 ^ 53) * ((1 - 1 / 2 ^ 53) * (A * 440)) \<le> (1 - 1 / 2 ^ 53) * (rd A * 440)"
    using a(1) by (intro mult_left_mono) simp_all
  then show "(1 - 1 / 2 ^ 53) * ((1 - 1 / 2 ^ 53) * (A * 440)) \<le> rd (rd A * 440)"
    using b(1) by linarith
  have "(1 + 1 / 2 ^ 53) * (rd A * 440) \<le> (1 + 1 / 2 ^ 53) * ((1 + 1 / 2 ^ 53) * (A * 440))"
    using a(2) by (intro mult_left_mono) simp_all
  then show "rd (rd A * 440) \<le> (1 + 1 / 2 ^ 53) * ((1 + 1 / 2 ^ 53) * (A * 440))"
    using b(2) by linarith
  show "0 < rd (rd A * 440)" using p by (rule rd_pos)
qed


lemma ratio_bounds:
  assumes "0 < (p::real)" "lo * p \<le> q" "q \<le> hi * p"
  shows "lo \<le> q / p" "q / p \<le> hi"
  using assms by (simp_all add: field_simps)

lemma octave_ratio:
  assumes "- 12206 \<le> n" "n \<le> 12239"
  shows "\<bar>get_pitch (double_of_int (n + 12)) / get_pitch (double_of_int n) - 2\<bar> \<le> 1 / 10 ^ 14"
    and "0 < get_pitch (double_of_int n)"
    and "\<bar>get_pitch (double_of_int n) - 440 * chromatic_ratio powr of_int (n - 57)\<bar>
           \<le> 440 * chromatic_ratio powr of_int (n - 57) / 2 ^ 51"
proof -
  let ?c = "4771397596969315 / 4503599627370496 :: real"
  let ?A = "chromatic_ratio powr of_int (n - 57)"
  let ?p = "rd (rd ?A * 440)"
  let ?q = "rd (rd (?A * ?c ^ 12) * 440)"
  let ?e = "1 / 2 ^ 53 :: real"
  have c: "0 < chromatic_ratio" by (rule chromatic_ratio_pos)
  have A: "0 < ?A" using c by simp
  have c12: "0 < ?c ^ 12" by simp
  have A': "0 < ?A * ?c ^ 12" using A c12 by (rule mult_pos_pos)
  have "chromatic_ratio powr of_int (n + 12 - 57) = ?A * chromatic_ratio powr 12"
    by (simp add: powr_add [symmetric] algebra_simps)
  also have "chromatic_ratio powr 12 = chromatic_ratio ^ 12"
    using c by (simp add: powr_numeral)
  finally have pw: "chromatic_ratio powr of_int (n + 12 - 57) = ?A * ?c ^ 12"
    by (simp only: chromatic_ratio_val)
  have gp: "get_pitch (double_of_int n) = ?p" using assms by (rule get_pitch_int)
  have gq: "get_pitch (double_of_int (n + 12)) = ?q"
  proof -
    have a: "double_of_int (n + 12) = of_int (n + 12)" using assms by (intro double_of_int_eq) simp
    have "rd (of_int (n + 12 - 57)) = of_int (n + 12 - 57)" using assms by (intro rd_int) simp
    then have b: "dsub (of_int (n + 12)) 57 = of_int (n + 12 - 57)" by (simp add: dsub_def)
    have "get_pitch (double_of_int (n + 12)) = rd (rd (chromatic_ratio powr of_int (n + 12 - 57)) * 440)"
      by (simp only: get_pitch_def a b c_pow_def dmul_def)
    then show ?thesis by (simp only: pw)
  qed
  note P = pitch_bounds [OF A] and Q = pitch_bounds [OF A']
  have B: "0 < ?A * 440" using A by simp
  have lo: "(2 - 1 / 10 ^ 14) * ((1 + ?e) * ((1 + ?e) * (?A * 440)))
      \<le> (1 - ?e) * ((1 - ?e) * (?A * ?c ^ 12 * 440))"
  proof -
    have "(2 - 1 / 10 ^ 14) * ((1 + ?e) * (1 + ?e)) \<le> (1 - ?e) * (1 - ?e) * ?c ^ 12"
      by (simp add: power_divide)
    then have "(2 - 1 / 10 ^ 14) * ((1 + ?e) * (1 + ?e)) * (?A * 440)
        \<le> (1 - ?e) * (1 - ?e) * ?c ^ 12 * (?A * 440)"
      using B by (intro mult_right_mono) simp_all
    then show ?thesis by (simp only: mult_ac)
  qed
  have hi: "(1 + ?e) * ((1 + ?e) * (?A * ?c ^ 12 * 440))
      \<le> (2 + 1 / 10 ^ 14) * ((1 - ?e) * ((1 - ?e) * (?A * 440)))"
  proof -
    have "(1 + ?e) * (1 + ?e) * ?c ^ 12 \<le> (2 + 1 / 10 ^ 14) * ((1 - ?e) * (1 - ?e))"
      by (simp add: power_divide)
    then have "(1 + ?e) * (1 + ?e) * ?c ^ 12 * (?A * 440)
        \<le> (2 + 1 / 10 ^ 14) * ((1 - ?e) * (1 - ?e)) * (?A * 440)"
      using B by (intro mult_right_mono) simp_all
    then show ?thesis by (simp only: mult_ac)
  qed
  have "(2 - 1 / 10 ^ 14) * ?p \<le> (2 - 1 / 10 ^ 14) * ((1 + ?e) * ((1 + ?e) * (?A * 440)))"
    using P(2) by (intro mult_left_mono) simp_all
  then have 1: "(2 - 1 / 10 ^ 14) * ?p \<le> ?q" using lo Q(1) by linarith
  have "(2 + 1 / 10 ^ 14) * ((1 - ?e) * ((1 - ?e) * (?A * 440))) \<le> (2 + 1 / 10 ^ 14) * ?p"
    using P(1) by (intro mult_left_mono) simp_all
  then have 2: "?q \<le> (2 + 1 / 10 ^ 14) * ?p" using hi Q(2) by linarith
  from ratio_bounds [OF P(3) 1 2]
  have "2 - 1 / 10 ^ 14 \<le> ?q / ?p" "?q / ?p \<le> 2 + 1 / 10 ^ 14" .
  then show "\<bar>get_pitch (double_of_int (n + 12)) / get_pitch (double_of_int n) - 2\<bar> \<le> 1 / 10 ^ 14"
    unfolding gp gq abs_le_iff by linarith
  show "0 < get_pitch (double_of_int n)" unfolding gp by (rule P(3))
  have e1: "(1 + ?e) * ((1 + ?e) * (?A * 440)) \<le> 440 * ?A + 440 * ?A / 2 ^ 51"
  proof -
    have "(1 + ?e) * (1 + ?e) \<le> 1 + 1 / 2 ^ 51" by simp
    then have "(1 + ?e) * (1 + ?e) * (?A * 440) \<le> (1 + 1 / 2 ^ 51) * (?A * 440)"
      using B by (intro mult_right_mono) simp_all
    then show ?thesis by (simp add: algebra_simps)
  qed
  have e2: "440 * ?A - 440 * ?A / 2 ^ 51 \<le> (1 - ?e) * ((1 - ?e) * (?A * 440))"
  proof -
    have "1 - 1 / 2 ^ 51 \<le> (1 - ?e) * (1 - ?e)" by simp
    then have "(1 - 1 / 2 ^ 51) * (?A * 440) \<le> (1 - ?e) * (1 - ?e) * (?A * 440)"
      using B by (intro mult_right_mono) simp_all
    then show ?thesis by (simp add: algebra_simps)
  qed
  show "\<bar>get_pitch (double_of_int n) - 440 * ?A\<bar> \<le> 440 * ?A / 2 ^ 51"
    unfolding gp abs_le_iff using P(1,2) e1 e2 by linarith
qed

lemma rd_sub_normal: "pow2 (- 1022) \<le> \<bar>x\<bar> \<Longrightarrow> rd_sub x = rd x"
proof -
  assume a: "pow2 (- 1022) \<le> \<bar>x\<bar>"
  have p: "0 < pow2 (- 1022)" by simp
  then have x: "0 < \<bar>x\<bar>" using a by linarith
  have "pow2 (- 1022) < pow2 (expo \<bar>x\<bar> + 1)"
    using expo_bounds(2) [OF x] a by linarith
  then have "- 1022 \<le> expo \<bar>x\<bar>" by simp
  then show ?thesis using x by (simp add: rd_sub_def rd_def max_def)
qed

lemma max_double_less: "max_double < pow2 1024"
proof -
  have "pow2 1024 = 2 ^ 53 * pow2 971" using pow2_add [of 53 971] by (simp add: pow2_53)
  then show ?thesis by (simp add: max_double_def)
qed

lemma rd_max_double: "rd max_double = max_double"
  unfolding max_double_def by (rule rd_repr) simp

lemma round_ieee_normal:
  assumes "pow2 (- 1022) \<le> x" "x \<le> max_double"
  shows "round_ieee x = Fin (rd x)"
proof -
  have x: "0 < x" using assms(1) pow2_pos [of "- 1022"] by linarith
  have s: "rd_sub x = rd x" using assms(1) x by (intro rd_sub_normal) simp
  have "rd x \<le> rd max_double" using assms(2) by (rule rd_mono)
  then have u: "rd x < pow2 1024" using rd_max_double max_double_less by linarith
  have "0 < rd x" using x by (rule rd_pos)
  then have l: "\<not> rd x \<le> - pow2 1024" using pow2_pos [of 1024] by linarith
  show ?thesis using s u l by (simp add: round_ieee_def)
qed

lemma round_ieee_0 [simp]: "round_ieee 0 = Fin 0"
  by (simp add: round_ieee_def rd_sub_def not_le)

lemma rd_pow2: "rd (pow2 e) = pow2 e"
  using rd_repr [of 1 e] by simp

lemma round_ieee_overflow:
  assumes "pow2 1024 \<le> x"
  shows "round_ieee x = PInf"
proof -
  have "pow2 (- 1022) \<le> pow2 1024" by simp
  then have "pow2 (- 1022) \<le> \<bar>x\<bar>" using assms by linarith
  then have s: "rd_sub x = rd x" by (rule rd_sub_normal)
  have "rd (pow2 1024) \<le> rd x" using assms by (rule rd_mono)
  then show ?thesis using s by (simp add: round_ieee_def rd_pow2)
qed

lemma rne_small:
  assumes "0 \<le> y" "y \<le> 1 / 2"
  shows "rne y = 0"
proof -
  have f: "\<lfloor>y\<rfloor> = 0" using assms by (simp add: floor_eq_iff)
  show ?thesis using assms by (simp add: rne_def Let_def f)
qed

lemma round_ieee_underflow:
  assumes "0 \<le> x" "x \<le> pow2 (- 1075)"
  shows "round_ieee x = Fin 0"
proof (cases "x = 0")
  case True then show ?thesis by simp
next
  case False
  then have x: "0 < x" using assms(1) by simp
  have "pow2 (expo x) \<le> x" using expo_bounds(1) [OF x] .
  then have "pow2 (expo x) \<le> pow2 (- 1075)" using assms(2) by linarith
  then have e: "max (expo \<bar>x\<bar>) (- 1022) = - 1022" using x by simp
  have "pow2 (- 1075) = pow2 (- 1074) * (1 / 2)"
    using pow2_succ [of "- 1075"] by simp
  then have "x / pow2 (- 1074) \<le> 1 / 2" using assms(2) by (simp add: field_simps)
  moreover have "0 \<le> x / pow2 (- 1074)" using x by simp
  ultimately have "rne (x / pow2 (- 1074)) = 0" by (intro rne_small)
  then have "rd_sub x = 0" using x e by (simp add: rd_sub_def rd_at_def)
  then show ?thesis by (simp add: round_ieee_def not_le)
qed



lemma cr12: "2 < chromatic_ratio ^ 12" "chromatic_ratio ^ 12 \<le> 2 * (1 + 1 / 2 ^ 50)"
  by (simp_all add: chromatic_ratio_val power_divide)

lemma cr_gt1: "1 < chromatic_ratio"
  by (simp add: chromatic_ratio_val)

lemma cr_powr: "chromatic_ratio powr y = (chromatic_ratio ^ 12) powr (y / 12)"
proof -
  have "chromatic_ratio ^ 12 = chromatic_ratio powr 12"
    using chromatic_ratio_pos by (simp add: powr_numeral)
  then show ?thesis by (simp add: powr_powr)
qed

lemma small_powr:
  fixes z :: real
  assumes "0 \<le> z" "z \<le> 2048"
  shows "(1 + 1 / 2 ^ 50) powr z \<le> 1 + 1 / 2 ^ 38"
proof -
  let ?h = "1 / 2 ^ 50 :: real"
  have "ln (1 + ?h) \<le> ?h" by (rule ln_add_one_self_le_self) simp
  then have "z * ln (1 + ?h) \<le> z * ?h" using assms(1) by (rule mult_left_mono)
  also have "z * ?h \<le> 2048 * ?h" using assms(2) by (intro mult_right_mono) simp_all
  finally have a: "z * ln (1 + ?h) \<le> 1 / 2 ^ 39" by simp
  have "exp (z * ln (1 + ?h)) \<le> exp (1 / 2 ^ 39)" using a by simp
  also have "exp (1 / 2 ^ 39 :: real) \<le> 1 + 1 / 2 ^ 39 + (1 / 2 ^ 39)\<^sup>2"
    by (rule exp_bound) simp_all
  also have "\<dots> \<le> 1 + 1 / 2 ^ 38" by (simp add: power2_eq_square)
  finally show ?thesis by (simp add: powr_def)
qed

lemma cr_powr_bounds_pos:
  assumes "0 \<le> y"
  shows "2 powr (y / 12) \<le> chromatic_ratio powr y"
    and "y \<le> 24576 \<Longrightarrow> chromatic_ratio powr y \<le> 2 powr (y / 12) * (1 + 1 / 2 ^ 38)"
proof -
  have z: "0 \<le> y / 12" using assms by simp
  show "2 powr (y / 12) \<le> chromatic_ratio powr y"
    unfolding cr_powr [of y] using cr12(1) z by (intro powr_mono2) simp_all
  assume "y \<le> 24576"
  then have z2: "y / 12 \<le> 2048" by simp
  have "(chromatic_ratio ^ 12) powr (y / 12) \<le> (2 * (1 + 1 / 2 ^ 50)) powr (y / 12)"
    using cr12 z by (intro powr_mono2) simp_all
  also have "\<dots> = 2 powr (y / 12) * (1 + 1 / 2 ^ 50) powr (y / 12)"
    using powr_mult [of 2 "1 + 1 / 2 ^ 50" "y / 12"] by simp
  also have "\<dots> \<le> 2 powr (y / 12) * (1 + 1 / 2 ^ 38)"
    using small_powr [OF z z2] by (intro mult_left_mono) simp_all
  finally show "chromatic_ratio powr y \<le> 2 powr (y / 12) * (1 + 1 / 2 ^ 38)"
    unfolding cr_powr [of y] .
qed

lemma cr_powr_bounds_neg:
  assumes "y \<le> 0"
  shows "chromatic_ratio powr y \<le> 2 powr (y / 12)"
    and "- 24576 \<le> y \<Longrightarrow> 2 powr (y / 12) * (1 - 1 / 2 ^ 38) \<le> chromatic_ratio powr y"
proof -
  have p: "0 \<le> - y" using assms by simp
  note a = cr_powr_bounds_pos [OF p]
  have inv: "chromatic_ratio powr y = 1 / chromatic_ratio powr (- y)"
    "2 powr (y / 12) = 1 / 2 powr (- y / 12)"
    by (simp_all add: powr_minus_divide)
  have pos: "0 < (2::real) powr (- y / 12)" "0 < chromatic_ratio powr (- y)"
    using chromatic_ratio_pos by simp_all
  show "chromatic_ratio powr y \<le> 2 powr (y / 12)"
    unfolding inv using a(1) pos by (simp add: frac_le)
  assume "- 24576 \<le> y"
  then have "chromatic_ratio powr (- y) \<le> 2 powr (- y / 12) * (1 + 1 / 2 ^ 38)"
    by (intro a(2)) simp
  then have "1 / (2 powr (- y / 12) * (1 + 1 / 2 ^ 38)) \<le> 1 / chromatic_ratio powr (- y)"
    using pos by (intro divide_left_mono) simp_all
  moreover have "(1 - 1 / 2 ^ 38 :: real) \<le> 1 / (1 + 1 / 2 ^ 38)" by simp
  then have "1 / 2 powr (- y / 12) * (1 - 1 / 2 ^ 38) \<le> 1 / 2 powr (- y / 12) * (1 / (1 + 1 / 2 ^ 38))"
    by (intro mult_left_mono) simp_all
  ultimately show "2 powr (y / 12) * (1 - 1 / 2 ^ 38) \<le> chromatic_ratio powr y"
    unfolding inv by simp
qed

lemma root_upper:
  assumes "0 < a" "0 < m" "2 \<le> a ^ m"
  shows "2 powr (1 / real m) \<le> a"
proof -
  have "2 powr (1 / real m) \<le> (a ^ m) powr (1 / real m)"
    using assms(3) by (intro powr_mono2) simp_all
  also have "a ^ m = a powr real m" using assms(1) by (simp add: powr_realpow)
  also have "(a powr real m) powr (1 / real m) = a" using assms by (simp add: powr_powr)
  finally show ?thesis .
qed

lemma root_lower:
  assumes "0 < a" "0 < m" "a ^ m \<le> 2"
  shows "a \<le> 2 powr (1 / real m)"
proof -
  have "(a ^ m) powr (1 / real m) \<le> 2 powr (1 / real m)"
    using assms by (intro powr_mono2) simp_all
  moreover have "a ^ m = a powr real m" using assms(1) by (simp add: powr_realpow)
  moreover have "(a powr real m) powr (1 / real m) = a" using assms by (simp add: powr_powr)
  ultimately show ?thesis by simp
qed


lemma powr_split: "2 powr (of_int q + f) = pow2 q * 2 powr f"
  by (simp add: pow2_powr powr_add)

lemma pow_hi:
  assumes "y \<le> 12182"
  shows "chromatic_ratio powr y \<le> 113 / 100 * pow2 1015"
proof -
  have "chromatic_ratio powr y \<le> chromatic_ratio powr 12182"
    using assms cr_gt1 by (intro powr_mono) simp_all
  also have "\<dots> \<le> 2 powr (12182 / 12) * (1 + 1 / 2 ^ 38)"
    by (rule cr_powr_bounds_pos(2)) simp_all
  also have "(12182 / 12 :: real) = of_int 1015 + 1 / real 6" by simp
  also have "2 powr (of_int 1015 + 1 / real 6) = pow2 1015 * 2 powr (1 / real 6)"
    by (rule powr_split)
  also have "pow2 1015 * 2 powr (1 / real 6) * (1 + 1 / 2 ^ 38)
      \<le> pow2 1015 * (11225 / 10000) * (1 + 1 / 2 ^ 38)"
    using root_upper [of "11225 / 10000" 6]
    by (intro mult_right_mono mult_left_mono) (simp_all add: power_divide)
  also have "\<dots> \<le> 113 / 100 * pow2 1015"
  proof -
    have "(11225 / 10000) * (1 + 1 / 2 ^ 38) \<le> (113 / 100 :: real)" by simp
    then have "pow2 1015 * ((11225 / 10000) * (1 + 1 / 2 ^ 38)) \<le> pow2 1015 * (113 / 100)"
      by (intro mult_left_mono) simp_all
    then show ?thesis by (simp only: mult_ac)
  qed
  finally show ?thesis .
qed

lemma pow_lo:
  assumes "- 12263 \<le> y"
  shows "pow2 (- 1022) \<le> chromatic_ratio powr y"
proof -
  have "pow2 (- 1022) * 1 \<le> pow2 (- 1022) * ((105 / 100) * (1 - 1 / 2 ^ 38))"
    by (intro mult_left_mono) simp_all
  also have "\<dots> = pow2 (- 1022) * (105 / 100) * (1 - 1 / 2 ^ 38)" by simp
  also have "\<dots> \<le> pow2 (- 1022) * 2 powr (1 / real 12) * (1 - 1 / 2 ^ 38)"
    using root_lower [of "105 / 100" 12]
    by (intro mult_right_mono mult_left_mono) (simp_all add: power_divide)
  also have "pow2 (- 1022) * 2 powr (1 / real 12) = 2 powr (of_int (- 1022) + 1 / real 12)"
    by (rule powr_split [symmetric])
  also have "(of_int (- 1022) + 1 / real 12 :: real) = - 12263 / 12" by simp
  also have "2 powr (- 12263 / 12) * (1 - 1 / 2 ^ 38) \<le> chromatic_ratio powr (- 12263)"
    by (rule cr_powr_bounds_neg(2)) simp_all
  also have "\<dots> \<le> chromatic_ratio powr y"
    using assms cr_gt1 by (intro powr_mono) simp_all
  finally show ?thesis by simp
qed

lemma pow_over:
  assumes "12183 \<le> y"
  shows "75 * pow2 1009 \<le> chromatic_ratio powr y"
proof -
  have "pow2 1015 = pow2 1009 * pow2 6" using pow2_add [of 1009 6] by simp
  also have "pow2 6 = 64" by (simp add: pow2_def)
  finally have "75 * pow2 1009 = pow2 1015 * (75 / 64)" by simp
  also have "\<dots> \<le> pow2 1015 * 2 powr (1 / real 4)"
    using root_lower [of "75 / 64" 4] by (intro mult_left_mono) (simp_all add: power_divide)
  also have "\<dots> = 2 powr (of_int 1015 + 1 / real 4)" by (rule powr_split [symmetric])
  also have "(of_int 1015 + 1 / real 4 :: real) = 12183 / 12" by simp
  also have "2 powr (12183 / 12) \<le> chromatic_ratio powr 12183"
    by (rule cr_powr_bounds_pos(1)) simp
  also have "\<dots> \<le> chromatic_ratio powr y"
    using assms cr_gt1 by (intro powr_mono) simp_all
  finally show ?thesis .
qed

lemma pow_under:
  assumes "y \<le> - 12900"
  shows "chromatic_ratio powr y \<le> pow2 (- 1075)"
proof -
  have "chromatic_ratio powr y \<le> chromatic_ratio powr (- 12900)"
    using assms cr_gt1 by (intro powr_mono) simp_all
  also have "\<dots> \<le> 2 powr (- 12900 / 12)" by (rule cr_powr_bounds_neg(1)) simp
  also have "(- 12900 / 12 :: real) = of_int (- 1075)" by simp
  also have "2 powr (of_int (- 1075)) = pow2 (- 1075)" by (rule pow2_powr [symmetric])
  finally show ?thesis .
qed


lemma rd_sub_neg: "rd_sub (- x) = - rd_sub x"
  by (simp add: rd_sub_def rd_at_def)

lemma round_ieee_normal_abs:
  assumes "pow2 (- 1022) \<le> \<bar>x\<bar>" "\<bar>x\<bar> \<le> max_double"
  shows "round_ieee x = Fin (rd x)"
proof -
  have s: "rd_sub x = rd x" using assms(1) by (rule rd_sub_normal)
  have "rd \<bar>x\<bar> \<le> rd max_double" using assms(2) by (rule rd_mono)
  moreover have "rd \<bar>x\<bar> = \<bar>rd x\<bar>"
    using rd_neg [of x] rd_nonneg [of x] rd_nonneg [of "- x"] by (cases "0 \<le> x") simp_all
  ultimately have "\<bar>rd x\<bar> < pow2 1024" using rd_max_double max_double_less by linarith
  then have "\<not> pow2 1024 \<le> rd x" "\<not> rd x \<le> - pow2 1024" by linarith+
  then show ?thesis using s by (simp add: round_ieee_def)
qed

lemma le_max_double:
  assumes "x \<le> 511 * pow2 1015"
  shows "x \<le> max_double"
proof -
  have "pow2 1015 = pow2 44 * pow2 971" using pow2_add [of 44 971] by simp
  also have "pow2 44 = 2 ^ 44" by (simp add: pow2_def)
  finally have "511 * pow2 1015 = (511 * 2 ^ 44) * pow2 971" by simp
  also have "\<dots> \<le> (2 ^ 53 - 1) * pow2 971" by (intro mult_right_mono) simp_all
  finally show ?thesis using assms by (simp add: max_double_def)
qed

lemma int_le_max_double:
  assumes "\<bar>i\<bar> < 2 ^ 53"
  shows "\<bar>of_int i :: real\<bar> \<le> max_double"
proof -
  have "\<bar>of_int i :: real\<bar> = of_int \<bar>i\<bar>" by simp
  also have "\<dots> \<le> of_int (2 ^ 53)" using assms by (simp only: of_int_le_iff)
  also have "\<dots> = pow2 53" by (simp add: pow2_53)
  also have "\<dots> \<le> pow2 1015" by simp
  also have "\<dots> \<le> 511 * pow2 1015" by simp
  finally show ?thesis by (rule le_max_double)
qed

lemma round_ieee_int:
  assumes "\<bar>i\<bar> < 2 ^ 53"
  shows "round_ieee (of_int i) = Fin (of_int i)"
proof (cases "i = 0")
  case True then show ?thesis by simp
next
  case False
  then have "1 \<le> \<bar>i\<bar>" by simp
  then have "(1::real) \<le> of_int \<bar>i\<bar>" by (simp only: of_int_1_le_iff)
  then have "pow2 0 \<le> \<bar>of_int i :: real\<bar>" by simp
  moreover have "pow2 (- 1022) \<le> pow2 0" by (simp del: pow2_0)
  ultimately have "pow2 (- 1022) \<le> \<bar>of_int i :: real\<bar>" by linarith
  then have "round_ieee (of_int i) = Fin (rd (of_int i))"
    using int_le_max_double [OF assms] by (rule round_ieee_normal_abs)
  then show ?thesis using assms by simp
qed

lemma get_pitch_ieee_normal:
  assumes "- 12206 \<le> n" "n \<le> 12239"
  shows "get_pitch_ieee (ieee_of_int n) = Fin (get_pitch (double_of_int n))"
proof -
  let ?x = "chromatic_ratio powr of_int (n - 57)"
  have a: "ieee_of_int n = Fin (of_int n)"
    unfolding ieee_of_int_def using assms by (intro round_ieee_int) simp
  have b: "round_ieee (of_int n - 57) = Fin (of_int (n - 57))"
    using round_ieee_int [of "n - 57"] assms by simp
  have k: "- 12263 \<le> (of_int (n - 57) :: real)" "(of_int (n - 57) :: real) \<le> 12182"
    using assms by simp_all
  note lo = pow_lo [OF k(1)] and hi = pow_hi [OF k(2)]
  have x: "0 < ?x" using chromatic_ratio_pos by simp
  have "?x \<le> 511 * pow2 1015" using hi pow2_pos [of 1015] by linarith
  then have c1: "\<bar>?x\<bar> \<le> max_double" using x le_max_double [of ?x] by simp
  have c2: "pow2 (- 1022) \<le> \<bar>?x\<bar>" using lo x by simp
  have c: "round_ieee ?x = Fin (rd ?x)" using c2 c1 by (rule round_ieee_normal_abs)
  have r1: "rd (pow2 (- 1022)) \<le> rd ?x" using lo by (rule rd_mono)
  have r2: "rd ?x \<le> (1 + 1 / 2 ^ 53) * ?x" using x by (rule rd_rel_bounds(2))
  have "(1 + 1 / 2 ^ 53) * ?x \<le> (1 + 1 / 2 ^ 53) * (113 / 100 * pow2 1015)"
    using hi by (intro mult_left_mono) simp_all
  also have "\<dots> \<le> 114 / 100 * pow2 1015"
  proof -
    have "(1 + 1 / 2 ^ 53) * (113 / 100) \<le> (114 / 100 :: real)" by simp
    then have "(1 + 1 / 2 ^ 53) * (113 / 100) * pow2 1015 \<le> 114 / 100 * pow2 1015"
      by (intro mult_right_mono) simp_all
    then show ?thesis by (simp only: mult_ac)
  qed
  finally have r3: "rd ?x \<le> 114 / 100 * pow2 1015" using r2 by linarith
  have p: "pow2 (- 1022) \<le> rd ?x" using r1 by (simp add: rd_pow2)
  have "0 < pow2 (- 1022)" by simp
  then have d1: "pow2 (- 1022) \<le> \<bar>rd ?x * 440\<bar>" using p by simp
  have "rd ?x * 440 \<le> 511 * pow2 1015" using r3 pow2_pos [of 1015] by linarith
  then have "rd ?x * 440 \<le> max_double" by (rule le_max_double)
  moreover have "0 \<le> rd ?x * 440" using p pow2_pos [of "- 1022"] by linarith
  ultimately have d2: "\<bar>rd ?x * 440\<bar> \<le> max_double" by linarith
  have d: "round_ieee (rd ?x * 440) = Fin (rd (rd ?x * 440))"
    using d1 d2 by (rule round_ieee_normal_abs)
  have "get_pitch_ieee (ieee_of_int n)
      = ieee_mul (c_pow_ieee chromatic_ratio (round_ieee (of_int n - 57))) (Fin 440)"
    by (simp only: get_pitch_ieee_def a ieee_sub.simps)
  also have "\<dots> = ieee_mul (round_ieee ?x) (Fin 440)"
    by (simp only: b c_pow_ieee.simps)
  also have "\<dots> = round_ieee (rd ?x * 440)"
    by (simp only: c ieee_mul.simps)
  also have "\<dots> = Fin (rd (rd ?x * 440))" by (rule d)
  finally show ?thesis using get_pitch_int [OF assms] by (simp only:)
qed

lemma round_ieee_ge:
  assumes "pow2 (- 1022) \<le> a" "rd a = a" "a \<le> x"
  shows "round_ieee x = PInf \<or> (\<exists>y. round_ieee x = Fin y \<and> a \<le> y)"
proof -
  have "pow2 (- 1022) \<le> \<bar>x\<bar>" using assms by linarith
  then have s: "rd_sub x = rd x" by (rule rd_sub_normal)
  have "rd a \<le> rd x" using assms(3) by (rule rd_mono)
  then have g: "a \<le> rd x" using assms(2) by simp
  have "0 < a" using assms(1) pow2_pos [of "- 1022"] by linarith
  then have "\<not> rd x \<le> - pow2 1024" using g pow2_pos [of 1024] by linarith
  then show ?thesis using s g by (simp add: round_ieee_def)
qed

lemma round_ieee_le:
  assumes "pow2 (- 1022) \<le> a" "rd a = a" "x \<le> - a"
  shows "round_ieee x = MInf \<or> (\<exists>y. round_ieee x = Fin y \<and> y \<le> - a)"
proof -
  have "pow2 (- 1022) \<le> \<bar>x\<bar>" using assms by linarith
  then have s: "rd_sub x = rd x" by (rule rd_sub_normal)
  have "rd x \<le> rd (- a)" using assms(3) by (rule rd_mono)
  then have g: "rd x \<le> - a" using assms(2) by (simp add: rd_neg)
  have "0 < a" using assms(1) pow2_pos [of "- 1022"] by linarith
  then have "\<not> pow2 1024 \<le> rd x" using g pow2_pos [of 1024] by linarith
  then show ?thesis using s g by (simp add: round_ieee_def)
qed

lemma pow2_small: "pow2 (- 1022) \<le> 1"
  using pow2_le_iff [of "- 1022" 0] by (simp del: pow2_le_iff)

lemma get_pitch_ieee_overflow:
  assumes "12240 \<le> n"
  shows "get_pitch_ieee (ieee_of_int n) = PInf"
proof -
  have top: "ieee_mul (c_pow_ieee chromatic_ratio (Fin e)) (Fin 440) = PInf"
    if e: "12183 \<le> e" for e
  proof -
    have c: "rd (75 * pow2 1009) = 75 * pow2 1009" using rd_repr [of 75 1009] by simp
    have "pow2 (- 1022) \<le> pow2 1009" by simp
    then have l: "pow2 (- 1022) \<le> 75 * pow2 1009" using pow2_pos [of 1009] by linarith
    from round_ieee_ge [OF l c pow_over [OF e]]
    consider "round_ieee (chromatic_ratio powr e) = PInf"
      | y where "round_ieee (chromatic_ratio powr e) = Fin y" "75 * pow2 1009 \<le> y" by blast
    then show ?thesis
    proof cases
      case 1 then show ?thesis by simp
    next
      case 2
      have "pow2 1024 = pow2 15 * pow2 1009" using pow2_add [of 15 1009] by simp
      also have "pow2 15 = 32768" by (simp add: pow2_def)
      finally have "pow2 1024 \<le> y * 440" using 2(2) pow2_pos [of 1009] by linarith
      then have "round_ieee (y * 440) = PInf" by (rule round_ieee_overflow)
      then show ?thesis using 2(1) by simp
    qed
  qed
  have mid: "get_pitch_ieee (Fin d) = PInf" if d: "12240 \<le> d" for d
  proof -
    have c: "rd 12183 = 12183" using rd_int [of 12183] by simp
    have "pow2 (- 1022) \<le> 12183" using pow2_small by linarith
    from round_ieee_ge [OF this c, of "d - 57"] d
    consider "round_ieee (d - 57) = PInf"
      | e where "round_ieee (d - 57) = Fin e" "12183 \<le> e" by auto
    then show ?thesis
    proof cases
      case 1 then show ?thesis using cr_gt1 by (simp add: get_pitch_ieee_def)
    next
      case 2 then show ?thesis using top [OF 2(2)] by (simp add: get_pitch_ieee_def)
    qed
  qed
  have c: "rd 12240 = 12240" using rd_int [of 12240] by simp
  have l: "pow2 (- 1022) \<le> 12240" using pow2_small by linarith
  have "(12240 :: real) \<le> of_int n" using assms by simp
  from round_ieee_ge [OF l c this]
  consider "ieee_of_int n = PInf" | d where "ieee_of_int n = Fin d" "12240 \<le> d"
    unfolding ieee_of_int_def by blast
  then show ?thesis
  proof cases
    case 1 then show ?thesis using cr_gt1 by (simp add: get_pitch_ieee_def)
  next
    case 2 then show ?thesis using mid [OF 2(2)] by simp
  qed
qed

lemma get_pitch_ieee_underflow:
  assumes "n \<le> - 12843"
  shows "get_pitch_ieee (ieee_of_int n) = Fin 0"
proof -
  have top: "ieee_mul (c_pow_ieee chromatic_ratio (Fin e)) (Fin 440) = Fin 0"
    if e: "e \<le> - 12900" for e
  proof -
    have "0 \<le> chromatic_ratio powr e" by simp
    then have "round_ieee (chromatic_ratio powr e) = Fin 0"
      using pow_under [OF e] by (rule round_ieee_underflow)
    then show ?thesis by simp
  qed
  have mid: "get_pitch_ieee (Fin d) = Fin 0" if d: "d \<le> - 12843" for d
  proof -
    have c: "rd 12900 = 12900" using rd_int [of 12900] by simp
    have "pow2 (- 1022) \<le> 12900" using pow2_small by linarith
    from round_ieee_le [OF this c, of "d - 57"] d
    consider "round_ieee (d - 57) = MInf"
      | e where "round_ieee (d - 57) = Fin e" "e \<le> - 12900" by auto
    then show ?thesis
    proof cases
      case 1 then show ?thesis using cr_gt1 by (simp add: get_pitch_ieee_def)
    next
      case 2 then show ?thesis using top [OF 2(2)] by (simp add: get_pitch_ieee_def)
    qed
  qed
  have c: "rd 12843 = 12843" using rd_int [of 12843] by simp
  have l: "pow2 (- 1022) \<le> 12843" using pow2_small by linarith
  have "(of_int n :: real) \<le> - 12843" using assms by simp
  from round_ieee_le [OF l c this]
  consider "ieee_of_int n = MInf" | d where "ieee_of_int n = Fin d" "d \<le> - 12843"
    unfolding ieee_of_int_def by blast
  then show ?thesis
  proof cases
    case 1 then show ?thesis using cr_gt1 by (simp add: get_pitch_ieee_def)
  next
    case 2 then show ?thesis using mid [OF 2(2)] by simp
  qed
qed


lemma rne_half: "1 / 2 < y \<Longrightarrow> 1 \<le> rne y"
proof (cases "1 \<le> y")
  case True
  then show ?thesis using rne_ge [of 1 y] by simp
next
  case False
  assume h: "1 / 2 < y"
  then have f: "\<lfloor>y\<rfloor> = 0" using False by (simp add: floor_eq_iff)
  show ?thesis using h by (simp add: rne_def Let_def f)
qed

lemma round_ieee_tiny:
  assumes "pow2 (- 1075) < x" "x \<le> pow2 (- 1022)"
  shows "\<exists>y. round_ieee x = Fin y \<and> pow2 (- 1074) \<le> y \<and> y \<le> pow2 (- 1022)"
proof -
  let ?u = "pow2 (- 1074)"
  have x: "0 < x" using assms(1) pow2_pos [of "- 1075"] by linarith
  have "pow2 (expo x) \<le> pow2 (- 1022)" using expo_bounds(1) [OF x] assms(2) by linarith
  then have e: "max (expo \<bar>x\<bar>) (- 1022) = - 1022" using x by simp
  have s: "rd_sub x = ?u * of_int (rne (x / ?u))"
    using x e by (simp add: rd_sub_def rd_at_def)
  have "pow2 (- 1075) = ?u * (1 / 2)" using pow2_succ [of "- 1075"] by simp
  then have "1 / 2 < x / ?u" using assms(1) by (simp add: field_simps)
  then have k1: "1 \<le> rne (x / ?u)" by (rule rne_half)
  have "pow2 (- 1022) = ?u * pow2 52" using pow2_add [of "- 1074" 52] by simp
  then have "x / ?u \<le> of_int (2 ^ 52)" using assms(2) by (simp add: field_simps pow2_52)
  then have k2: "rne (x / ?u) \<le> 2 ^ 52" by (rule rne_le)
  have l: "?u * 1 \<le> ?u * of_int (rne (x / ?u))"
    using k1 by (intro mult_left_mono) simp_all
  have "?u * of_int (rne (x / ?u)) \<le> ?u * of_int (2 ^ 52)"
    using k2 by (intro mult_left_mono) (simp_all only: of_int_le_iff pow2_nonneg)
  also have "\<dots> = pow2 (- 1022)" using pow2_add [of "- 1074" 52] by (simp add: pow2_52)
  finally have h: "?u * of_int (rne (x / ?u)) \<le> pow2 (- 1022)" .
  have "pow2 (- 1022) < pow2 1024" by simp
  then have "\<not> pow2 1024 \<le> rd_sub x" using h s by linarith
  moreover have "\<not> rd_sub x \<le> - pow2 1024"
    using l s pow2_pos [of "- 1074"] pow2_pos [of 1024] by linarith
  ultimately show ?thesis using s l h by (simp add: round_ieee_def)
qed

lemma pow_gap:
  assumes "- 12899 \<le> y" "y \<le> - 12264"
  shows "pow2 (- 1075) < chromatic_ratio powr y" "chromatic_ratio powr y \<le> pow2 (- 1022)"
proof -
  have "pow2 (- 1075) * 1 < pow2 (- 1075) * ((105 / 100) * (1 - 1 / 2 ^ 38))"
    by (intro mult_strict_left_mono) simp_all
  also have "\<dots> = pow2 (- 1075) * (105 / 100) * (1 - 1 / 2 ^ 38)" by simp
  also have "\<dots> \<le> pow2 (- 1075) * 2 powr (1 / real 12) * (1 - 1 / 2 ^ 38)"
    using root_lower [of "105 / 100" 12]
    by (intro mult_right_mono mult_left_mono) (simp_all add: power_divide)
  also have "pow2 (- 1075) * 2 powr (1 / real 12) = 2 powr (of_int (- 1075) + 1 / real 12)"
    by (rule powr_split [symmetric])
  also have "(of_int (- 1075) + 1 / real 12 :: real) = - 12899 / 12" by simp
  also have "2 powr (- 12899 / 12) * (1 - 1 / 2 ^ 38) \<le> chromatic_ratio powr (- 12899)"
    by (rule cr_powr_bounds_neg(2)) simp_all
  also have "\<dots> \<le> chromatic_ratio powr y"
    using assms cr_gt1 by (intro powr_mono) simp_all
  finally show "pow2 (- 1075) < chromatic_ratio powr y" by simp
  have "chromatic_ratio powr y \<le> chromatic_ratio powr (- 12264)"
    using assms cr_gt1 by (intro powr_mono) simp_all
  also have "\<dots> \<le> 2 powr (- 12264 / 12)" by (rule cr_powr_bounds_neg(1)) simp
  also have "(- 12264 / 12 :: real) = of_int (- 1022)" by simp
  also have "2 powr (of_int (- 1022)) = pow2 (- 1022)" by (rule pow2_powr [symmetric])
  finally show "chromatic_ratio powr y \<le> pow2 (- 1022)" .
qed

lemma get_pitch_ieee_gap:
  assumes "- 12842 \<le> n" "n \<le> - 12207"
  shows "\<exists>p. get_pitch_ieee (ieee_of_int n) = Fin p \<and> 0 < p \<and> p \<le> 440 * pow2 (- 1022)"
proof -
  let ?x = "chromatic_ratio powr of_int (n - 57)"
  have a: "ieee_of_int n = Fin (of_int n)"
    unfolding ieee_of_int_def using assms by (intro round_ieee_int) simp
  have b: "round_ieee (of_int n - 57) = Fin (of_int (n - 57))"
    using round_ieee_int [of "n - 57"] assms by simp
  have k: "- 12899 \<le> (of_int (n - 57) :: real)" "(of_int (n - 57) :: real) \<le> - 12264"
    using assms by simp_all
  from round_ieee_tiny [OF pow_gap [OF k]]
  obtain y where y: "round_ieee ?x = Fin y" "pow2 (- 1074) \<le> y" "y \<le> pow2 (- 1022)" by blast
  have g: "get_pitch_ieee (ieee_of_int n) = round_ieee (y * 440)"
    by (simp only: get_pitch_ieee_def a ieee_sub.simps b c_pow_ieee.simps y(1) ieee_mul.simps)
  have y0: "0 < y" using y(2) pow2_pos [of "- 1074"] by linarith
  have "\<exists>p. round_ieee (y * 440) = Fin p \<and> 0 < p \<and> p \<le> 440 * pow2 (- 1022)"
  proof (cases "pow2 (- 1022) \<le> y * 440")
    case True
    have u: "y * 440 \<le> 440 * pow2 (- 1022)" using y(3) by simp
    have "pow2 (- 1022) \<le> pow2 1015" by simp
    then have "y * 440 \<le> 511 * pow2 1015" using u pow2_pos [of 1015] pow2_pos [of "- 1022"]
      by linarith
    then have "y * 440 \<le> max_double" by (rule le_max_double)
    then have m: "\<bar>y * 440\<bar> \<le> max_double" using y0 by simp
    have "pow2 (- 1022) \<le> \<bar>y * 440\<bar>" using True y0 by simp
    then have r: "round_ieee (y * 440) = Fin (rd (y * 440))" using m
      by (rule round_ieee_normal_abs)
    have "rd (y * 440) \<le> rd (440 * pow2 (- 1022))" using u by (rule rd_mono)
    also have "\<dots> = 440 * pow2 (- 1022)" using rd_repr [of 440 "- 1022"] by simp
    finally have "rd (y * 440) \<le> 440 * pow2 (- 1022)" .
    moreover have "0 < rd (y * 440)" using y0 by (intro rd_pos) simp
    ultimately show ?thesis using r by simp
  next
    case False
    have "pow2 (- 1075) < pow2 (- 1074)" by simp
    then have "pow2 (- 1075) < y * 440" using y(2) y0 by linarith
    from round_ieee_tiny [OF this] False
    obtain p where p: "round_ieee (y * 440) = Fin p" "pow2 (- 1074) \<le> p" "p \<le> pow2 (- 1022)"
      by auto
    have "0 < p" using p(2) pow2_pos [of "- 1074"] by linarith
    moreover have "p \<le> 440 * pow2 (- 1022)" using p(3) pow2_pos [of "- 1022"] by linarith
    ultimately show ?thesis using p(1) by blast
  qed
  then show ?thesis by (simp only: g)
qed





end
